theory Spec2Isabelle
  imports Complex_Main "HOL-Library.AList" "HOL-Library.Sublist"
begin

section \<open>Data model of \<open>crypto_alert_bot.py\<close>\<close>

text \<open>
  Python floats. Only comparisons and the test for zero (a division by zero raises
  \<open>ZeroDivisionError\<close>) decide what the bot does; the percentages it computes are only
  printed. A finite double is represented by its value, so \<open>0.0\<close> and \<open>-0.0\<close> coincide, as
  they do for \<open>==\<close>, \<open><=\<close> and division in Python.
\<close>

datatype pyfloat = Finite real | PosInf | NegInf | NaN

text \<open>\<open>a <= b\<close> on floats: false as soon as one side is \<open>nan\<close>.\<close>

fun fle :: "pyfloat \<Rightarrow> pyfloat \<Rightarrow> bool" where
  "fle NaN b = False"
| "fle a NaN = False"
| "fle NegInf b = True"
| "fle a PosInf = True"
| "fle (Finite x) (Finite y) = (x \<le> y)"
| "fle PosInf b = False"
| "fle a NegInf = False"

text \<open>\<open>a < b\<close> on floats.\<close>

fun flt :: "pyfloat \<Rightarrow> pyfloat \<Rightarrow> bool" where
  "flt NaN b = False"
| "flt a NaN = False"
| "flt PosInf b = False"
| "flt a NegInf = False"
| "flt (Finite x) (Finite y) = (x < y)"
| "flt NegInf b = True"
| "flt a PosInf = True"

definition fge :: "pyfloat \<Rightarrow> pyfloat \<Rightarrow> bool" where
  "fge a b = fle b a"

definition fgt :: "pyfloat \<Rightarrow> pyfloat \<Rightarrow> bool" where
  "fgt a b = flt b a"

definition is_zero :: "pyfloat \<Rightarrow> bool" where
  "is_zero a = (a = Finite 0)"

text \<open>Truth value of a float in \<open>if current_price:\<close>: every float but zero.\<close>

definition truthy :: "pyfloat \<Rightarrow> bool" where
  "truthy a = (\<not> is_zero a)"

text \<open>
  \<open>str.upper()\<close> on ASCII text, the alphabet of exchange symbols: the letters \<open>a\<close> to \<open>z\<close>
  go to \<open>A\<close> to \<open>Z\<close>, every other character stays.
\<close>

definition upper_char :: "char \<Rightarrow> char" where
  "upper_char c =
     (case map_of (zip ''abcdefghijklmnopqrstuvwxyz'' ''ABCDEFGHIJKLMNOPQRSTUVWXYZ'') c of
        Some C \<Rightarrow> C
      | None \<Rightarrow> c)"

definition upper :: "string \<Rightarrow> string" where
  "upper s = map upper_char s"

text \<open>The exceptions that occur in the modelled code.\<close>

datatype exn = ValueError | KeyError | ZeroDivisionError | RuntimeError | TelegramError

datatype 'a outcome = Ok 'a | Raise exn

text \<open>The dataclass \<open>TargetLevel\<close>; \<open>created_at\<close> is a reading of the clock.\<close>

record TargetLevel =
  symbol :: string
  target_price :: pyfloat
  created_at :: nat

text \<open>
  \<open>user_levels: Dict[int, Dict[str, TargetLevel]]\<close>. A Python dict keeps its keys in
  insertion order: assigning to a key that is present keeps its place, a new key goes to the
  end, deleting a key leaves the order of the others. These are \<open>AList.update\<close> and
  \<open>AList.delete\<close> on association lists.
\<close>

type_synonym user_id = int
type_synonym levels = "(string \<times> TargetLevel) list"
type_synonym registry = "(user_id \<times> levels) list"

text \<open>
  What the bot writes: one \<open>Notify\<close> per call of \<open>send_target_hit_alert\<close>, with the way
  the call ended (\<open>Sent\<close>: the message went out and \<open>ALERT SENT\<close> was logged; \<open>Failed\<close>:
  the exception was logged by the function's own handler), and the lines of the logger.
\<close>

datatype notify_outcome = Sent | Failed exn

datatype event =
    Notify user_id TargetLevel pyfloat notify_outcome
  | Checked nat
  | LoopError exn
  | Sleep nat
  | HandlerError exn
  | Started

record bot =
  user_levels :: registry
  monitoring :: bool
  journal :: "event list"

section \<open>Registry accesses\<close>

text \<open>The sub-map of a user; no sub-map reads as no levels.\<close>

definition levels_of :: "registry \<Rightarrow> user_id \<Rightarrow> levels" where
  "levels_of r u = (case map_of r u of None \<Rightarrow> [] | Some d \<Rightarrow> d)"

definition entry_of :: "registry \<Rightarrow> user_id \<Rightarrow> string \<Rightarrow> TargetLevel option" where
  "entry_of r u s = map_of (levels_of r u) s"

text \<open>\<open>if user_id not in self.user_levels: self.user_levels[user_id] = {}\<close>\<close>

definition ensure_user :: "user_id \<Rightarrow> registry \<Rightarrow> registry" where
  "ensure_user u r = (if map_of r u = None then AList.update u [] r else r)"

text \<open>
  \<open>self.user_levels[user_id][symbol] = level\<close>, where \<open>level.symbol\<close> is \<open>symbol\<close>. It
  runs only after \<open>ensure_user\<close>, and no code ever removes a user, so the outer subscript
  finds its key.
\<close>

definition set_level :: "user_id \<Rightarrow> TargetLevel \<Rightarrow> registry \<Rightarrow> registry" where
  "set_level u lv r = AList.update u (AList.update (symbol lv) lv (levels_of r u)) r"

text \<open>
  \<open>if symbol in self.user_levels[user_id]: self.user_levels[user_id].pop(symbol)\<close>, guarded
  by \<open>user_id in self.user_levels\<close>: the manual removal of \<open>/remove\<close> and of the button.
\<close>

definition pop_level :: "user_id \<Rightarrow> string \<Rightarrow> registry \<Rightarrow> registry" where
  "pop_level u s r =
     (case map_of r u of
        None \<Rightarrow> r
      | Some d \<Rightarrow> (if map_of d s = None then r else AList.update u (AList.delete s d) r))"

text \<open>
  \<open>del self.user_levels[user_id][symbol]\<close> of the monitor: unguarded, so a missing key
  raises \<open>KeyError\<close>.
\<close>

definition del_level :: "user_id \<Rightarrow> string \<Rightarrow> registry \<Rightarrow> exn + registry" where
  "del_level u s r =
     (case map_of r u of
        None \<Rightarrow> Inl KeyError
      | Some d \<Rightarrow>
          (if map_of d s = None then Inl KeyError
           else Inr (AList.update u (AList.delete s d) r)))"

text \<open>
  The writes to the registry. What a handler does to the registry between two of its waits
  happens at once: creating a user's sub-map (\<open>/start\<close>, first lines of \<open>/add\<close>), storing
  a level (\<open>/add\<close>), removing one (\<open>/remove\<close>, the button, the monitor's deletion when the
  entry is there).
\<close>

datatype mutation = Ensure user_id | Store user_id TargetLevel | Pop user_id string

fun mutate :: "mutation \<Rightarrow> registry \<Rightarrow> registry" where
  "mutate (Ensure u) r = ensure_user u r"
| "mutate (Store u lv) r = set_level u lv (ensure_user u r)"
| "mutate (Pop u s) r = pop_level u s r"

definition interfere :: "mutation list \<Rightarrow> bot \<Rightarrow> bot" where
  "interfere ms b = b\<lparr>user_levels := fold mutate ms (user_levels b)\<rparr>"

section \<open>Command handlers\<close>

text \<open>
  What a handler gets from outside: Python's \<open>float()\<close> on the price argument (\<open>None\<close> is
  \<open>ValueError\<close>), the answers of \<open>get_binance_price\<close> (\<open>None\<close> when the request fails or
  the status is not 200), and the clock. \<open>/start\<close>, \<open>/add\<close>, \<open>/remove\<close> and the button are
  modelled as run from their first line to their last; the messages a handler sends with
  \<open>reply_text\<close> are returned in order and their delivery is taken to succeed.
\<close>

record cmd_env =
  float_of :: "string \<Rightarrow> pyfloat option"
  get_binance_price :: "string \<Rightarrow> pyfloat option"
  now :: nat

datatype status = ShouldHaveTriggered | Watching | Unknown

type_synonym row = "nat \<times> string \<times> TargetLevel \<times> pyfloat option \<times> status"

datatype reply =
    Welcome
  | InvalidFormat
  | InvalidSymbol string
  | Warning pyfloat pyfloat
  | LevelUpdated string pyfloat pyfloat pyfloat
  | LevelAdded string pyfloat pyfloat
  | InvalidPrice
  | ErrorOccurred
  | NoActiveLevels
  | LevelsList nat "row list"
  | NoLevelsToRemove
  | SelectLevel "(string \<times> pyfloat) list"
  | LevelRemoved string pyfloat
  | NoActiveLevel string
  | Cancelled
  | LevelNotFound

definition start_command :: "user_id \<Rightarrow> bot \<Rightarrow> reply list \<times> bot" where
  "start_command uid b = ([Welcome], b\<lparr>user_levels := ensure_user uid (user_levels b)\<rparr>)"

text \<open>
  \<open>/add\<close>. The level is stored before the confirmation is built; for a new symbol the
  confirmation divides by the current price, so a current price of zero raises
  \<open>ZeroDivisionError\<close> after the store, which the handler's last clause logs.
\<close>

definition add_level_command :: "cmd_env \<Rightarrow> user_id \<Rightarrow> string list \<Rightarrow> bot \<Rightarrow> reply list \<times> bot" where
  "add_level_command env uid args b0 =
     (let b = b0\<lparr>user_levels := ensure_user uid (user_levels b0)\<rparr> in
      if length args \<noteq> 2 then ([InvalidFormat], b)
      else
        let sym = upper (args ! 0) in
        case float_of env (args ! 1) of
          None \<Rightarrow> ([InvalidPrice], b)
        | Some target \<Rightarrow>
            (case get_binance_price env sym of
               None \<Rightarrow> ([InvalidSymbol sym], b)
             | Some current \<Rightarrow>
                 let warn = (if fge target current then [Warning target current] else []);
                     previous = entry_of (user_levels b) uid sym;
                     level = \<lparr>symbol = sym, target_price = target, created_at = now env\<rparr>;
                     b' = b\<lparr>user_levels := set_level uid level (user_levels b)\<rparr>
                 in case previous of
                      Some old \<Rightarrow>
                        (warn @ [LevelUpdated sym (target_price old) target current], b')
                    | None \<Rightarrow>
                        if is_zero current
                        then (warn @ [ErrorOccurred],
                              b'\<lparr>journal := journal b' @ [HandlerError ZeroDivisionError]\<rparr>)
                        else (warn @ [LevelAdded sym target current], b')))"

text \<open>
  \<open>/list\<close>: one row per item of the user's dict, numbered from 1. The loop iterates over
  the live dict and waits for a price in every round, so the writes of other handlers and the
  deletions of the monitor land between two steps of the iterator; \<open>landing s\<close> are the
  writes that land while the price of \<open>s\<close> is fetched. A step of the iterator raises
  \<open>RuntimeError\<close> when the dict's size is no longer \<open>size0\<close>, its size when the loop began;
  nothing catches it and no reply is sent. As long as no write has changed the dict's keys the
  iterator goes through the items in order, reading the level stored at that moment. After a
  write that changed the keys and left the size as it was (a removal and an insertion), what
  the iterator does depends on the free slots of the interpreter's hash table, which an
  association list does not record: the run then ends as \<open>Interpreter_dependent\<close>.
\<close>

datatype 'a ended = Returned 'a | Raised exn | Interpreter_dependent

definition list_row :: "cmd_env \<Rightarrow> nat \<times> string \<times> TargetLevel \<Rightarrow> row" where
  "list_row env e =
     (case e of (i, s, lv) \<Rightarrow>
        (case get_binance_price env s of
           None \<Rightarrow> (i, s, lv, None, Unknown)
         | Some current \<Rightarrow>
             if truthy current
             then (i, s, lv, Some current,
                   if fle current (target_price lv) then ShouldHaveTriggered else Watching)
             else (i, s, lv, None, Unknown)))"

text \<open>Whether a sequence of writes leaves the keys of a user's dict as they are, write by write.\<close>

fun keys_kept :: "user_id \<Rightarrow> mutation list \<Rightarrow> registry \<Rightarrow> bool" where
  "keys_kept u [] r = True"
| "keys_kept u (m # ms) r =
     (map fst (levels_of (mutate m r) u) = map fst (levels_of r u) \<and> keys_kept u ms (mutate m r))"

text \<open>
  The loop: \<open>i\<close> items have been shown, \<open>k\<close> are still expected, \<open>kept\<close> says that no
  write has changed the keys so far.
\<close>

fun list_rows ::
    "cmd_env \<Rightarrow> (string \<Rightarrow> mutation list) \<Rightarrow> user_id \<Rightarrow> nat \<Rightarrow> nat \<Rightarrow> nat \<Rightarrow> bool \<Rightarrow> bot
      \<Rightarrow> row list \<Rightarrow> row list ended \<times> bot" where
  "list_rows env landing uid size0 i 0 kept b rows =
     (if length (levels_of (user_levels b) uid) \<noteq> size0 then (Raised RuntimeError, b)
      else if \<not> kept then (Interpreter_dependent, b)
      else (Returned rows, b))"
| "list_rows env landing uid size0 i (Suc k) kept b rows =
     (if length (levels_of (user_levels b) uid) \<noteq> size0 then (Raised RuntimeError, b)
      else if \<not> kept then (Interpreter_dependent, b)
      else
        case levels_of (user_levels b) uid ! i of
          (s, lv) \<Rightarrow>
            list_rows env landing uid size0 (Suc i) k
              (keys_kept uid (landing s) (user_levels b))
              (interfere (landing s) b)
              (rows @ [list_row env (Suc i, s, lv)]))"

definition list_levels_command ::
    "cmd_env \<Rightarrow> (string \<Rightarrow> mutation list) \<Rightarrow> user_id \<Rightarrow> bot \<Rightarrow> reply list ended \<times> bot" where
  "list_levels_command env landing uid b =
     (case map_of (user_levels b) uid of
        None \<Rightarrow> (Returned [NoActiveLevels], b)
      | Some d \<Rightarrow>
          if d = [] then (Returned [NoActiveLevels], b)
          else
            case list_rows env landing uid (length d) 0 (length d) True b [] of
              (Returned rows, b') \<Rightarrow> (Returned [LevelsList (length d) rows], b')
            | (Raised e, b') \<Rightarrow> (Raised e, b')
            | (Interpreter_dependent, b') \<Rightarrow> (Interpreter_dependent, b'))"

text \<open>\<open>/remove\<close>, with the buttons when no symbol is given.\<close>

definition remove_level_command :: "user_id \<Rightarrow> string list \<Rightarrow> bot \<Rightarrow> reply list \<times> bot" where
  "remove_level_command uid args b =
     (case map_of (user_levels b) uid of
        None \<Rightarrow> ([NoLevelsToRemove], b)
      | Some d \<Rightarrow>
          if d = [] then ([NoLevelsToRemove], b)
          else if args = [] then ([SelectLevel (map (\<lambda>(s, lv). (s, target_price lv)) d)], b)
          else
            let sym = upper (args ! 0) in
            case map_of d sym of
              Some removed \<Rightarrow>
                ([LevelRemoved sym (target_price removed)],
                 b\<lparr>user_levels := pop_level uid sym (user_levels b)\<rparr>)
            | None \<Rightarrow> ([NoActiveLevel sym], b))"

text \<open>\<open>data.replace("remove_", "")\<close>: every occurrence of the prefix token is taken out.\<close>

function strip_remove :: "string \<Rightarrow> string" where
  "strip_remove [] = []"
| "strip_remove (c # cs) =
     (if prefix ''remove_'' (c # cs) then strip_remove (drop 7 (c # cs))
      else c # strip_remove cs)"
  by pat_completeness auto
termination
  by (relation "measure length") auto

definition button_callback :: "user_id \<Rightarrow> string \<Rightarrow> bot \<Rightarrow> reply list \<times> bot" where
  "button_callback uid data b =
     (if data = ''cancel'' then ([Cancelled], b)
      else if prefix ''remove_'' data then
        (let sym = strip_remove data in
         case entry_of (user_levels b) uid sym of
           Some removed \<Rightarrow>
             ([LevelRemoved sym (target_price removed)],
              b\<lparr>user_levels := pop_level uid sym (user_levels b)\<rparr>)
         | None \<Rightarrow> ([LevelNotFound], b))
      else ([], b))"

section \<open>The monitor\<close>

text \<open>
  The monitor is a coroutine: while it waits for a price or for a message to be sent, the
  handlers run. A tick is given, for each of its waits, the list of the writes that land
  during it.
\<close>

text \<open>
  The surroundings of one tick: the answer of \<open>get_binance_price\<close> when it is asked for a
  user's symbol, whether \<open>send_message\<close> returns or raises, and the writes landing during
  the two waits (those of the second are given by the user and the symbol of the level sent).
\<close>

record tick_env =
  price_of :: "user_id \<Rightarrow> string \<Rightarrow> pyfloat option"
  send_message_ok :: "user_id \<Rightarrow> TargetLevel \<Rightarrow> pyfloat \<Rightarrow> bool"
  during_lookup :: "user_id \<Rightarrow> string \<Rightarrow> mutation list"
  during_send :: "user_id \<Rightarrow> string \<Rightarrow> mutation list"

text \<open>
  \<open>send_target_hit_alert\<close>: the text divides by the target price, so a target of zero
  raises before anything is sent; otherwise the message is sent, which may fail. Either
  failure is caught and logged inside the function, which always returns.
\<close>

definition send_target_hit_alert ::
    "tick_env \<Rightarrow> user_id \<Rightarrow> TargetLevel \<Rightarrow> pyfloat \<Rightarrow> bot \<Rightarrow> bot" where
  "send_target_hit_alert env uid level current b =
     (if is_zero (target_price level)
      then b\<lparr>journal := journal b @ [Notify uid level current (Failed ZeroDivisionError)]\<rparr>
      else
        let b1 = interfere (during_send env uid (symbol level)) b in
        if send_message_ok env uid level current
        then b1\<lparr>journal := journal b1 @ [Notify uid level current Sent]\<rparr>
        else b1\<lparr>journal := journal b1 @ [Notify uid level current (Failed TelegramError)]\<rparr>)"

text \<open>
  The inner loop of \<open>check_all_levels\<close> over \<open>list(user_levels.items())\<close>, a copy taken
  when the loop starts; \<open>n\<close> is \<open>total_checks\<close>.
\<close>

fun scan_levels :: "tick_env \<Rightarrow> user_id \<Rightarrow> levels \<Rightarrow> nat \<Rightarrow> bot \<Rightarrow> nat outcome \<times> bot" where
  "scan_levels env uid [] n b = (Ok n, b)"
| "scan_levels env uid ((s, level) # rest) n b =
     (let b1 = interfere (during_lookup env uid s) b in
      case price_of env uid s of
        None \<Rightarrow> scan_levels env uid rest n b1
      | Some current \<Rightarrow>
          if fle current (target_price level) then
            (let b2 = send_target_hit_alert env uid level current b1 in
             case del_level uid s (user_levels b2) of
               Inl e \<Rightarrow> (Raise e, b2)
             | Inr r \<Rightarrow> scan_levels env uid rest (Suc n) (b2\<lparr>user_levels := r\<rparr>))
          else scan_levels env uid rest (Suc n) b1)"

text \<open>
  The outer loop iterates over the live dict \<open>self.user_levels\<close>: each step of the iterator
  raises \<open>RuntimeError\<close> when the dict's size is no longer \<open>size0\<close>, its size when the loop
  began. Users are only ever added, at the end, so the keys still to visit are those that
  were there at the start.
\<close>

fun scan_users :: "tick_env \<Rightarrow> nat \<Rightarrow> user_id list \<Rightarrow> nat \<Rightarrow> bot \<Rightarrow> nat outcome \<times> bot" where
  "scan_users env size0 [] n b =
     (if length (user_levels b) \<noteq> size0 then (Raise RuntimeError, b) else (Ok n, b))"
| "scan_users env size0 (uid # rest) n b =
     (if length (user_levels b) \<noteq> size0 then (Raise RuntimeError, b)
      else
        case scan_levels env uid (levels_of (user_levels b) uid) n b of
          (Raise e, b') \<Rightarrow> (Raise e, b')
        | (Ok n', b') \<Rightarrow> scan_users env size0 rest n' b')"

definition check_all_levels :: "tick_env \<Rightarrow> bot \<Rightarrow> unit outcome \<times> bot" where
  "check_all_levels env b =
     (case scan_users env (length (user_levels b)) (map fst (user_levels b)) 0 b of
        (Raise e, b') \<Rightarrow> (Raise e, b')
      | (Ok n, b') \<Rightarrow>
          (Ok (), if 0 < n then b'\<lparr>journal := journal b' @ [Checked n]\<rparr> else b'))"

text \<open>
  \<open>price_monitoring_loop\<close>: \<open>while True\<close> around a \<open>try\<close>. One round of the loop is
  \<open>monitor_round\<close>; the loop has no \<open>break\<close> and no \<open>return\<close>, so a run of it is given by
  the surroundings of as many rounds as one wants to observe, each with the writes that land
  while the loop sleeps.
\<close>

record round_env =
  tick :: tick_env
  during_sleep :: "mutation list"

definition sleep :: "nat \<Rightarrow> mutation list \<Rightarrow> bot \<Rightarrow> bot" where
  "sleep t ms b = (let b1 = interfere ms b in b1\<lparr>journal := journal b1 @ [Sleep t]\<rparr>)"

definition monitor_round :: "round_env \<Rightarrow> bot \<Rightarrow> bot" where
  "monitor_round env b =
     (case check_all_levels (tick env) b of
        (Ok u, b') \<Rightarrow> sleep 300 (during_sleep env) b'
      | (Raise e, b') \<Rightarrow>
          sleep 60 (during_sleep env) (b'\<lparr>journal := journal b' @ [LoopError e]\<rparr>))"

fun monitor_rounds :: "round_env list \<Rightarrow> bot \<Rightarrow> bot" where
  "monitor_rounds [] b = b"
| "monitor_rounds (env # envs) b = monitor_rounds envs (monitor_round env b)"

definition price_monitoring_loop :: "round_env list \<Rightarrow> bot \<Rightarrow> bot" where
  "price_monitoring_loop envs b =
     monitor_rounds envs (b\<lparr>monitoring := True, journal := journal b @ [Started]\<rparr>)"

section \<open>Notions used to state the properties\<close>

text \<open>
  The registry as the handlers keep it: no user twice, no symbol twice in a sub-map, and
  every level filed under its own symbol.
\<close>

definition wf_levels :: "levels \<Rightarrow> bool" where
  "wf_levels d = (distinct (map fst d) \<and> (\<forall>(s, lv) \<in> set d. symbol lv = s))"

definition wf_registry :: "registry \<Rightarrow> bool" where
  "wf_registry r = (distinct (map fst r) \<and> (\<forall>(u, d) \<in> set r. wf_levels d))"

text \<open>
  The states of the bot: it is created with an empty registry, the handlers run, and the
  monitor runs rounds of its loop, under any interference.
\<close>

inductive reachable :: "bot \<Rightarrow> bool" where
  created: "reachable \<lparr>user_levels = [], monitoring = False, journal = []\<rparr>"
| started: "reachable b \<Longrightarrow> reachable (snd (start_command uid b))"
| added: "reachable b \<Longrightarrow> reachable (snd (add_level_command env uid args b))"
| removed: "reachable b \<Longrightarrow> reachable (snd (remove_level_command uid args b))"
| pressed: "reachable b \<Longrightarrow> reachable (snd (button_callback uid data b))"
| monitored: "reachable b \<Longrightarrow> reachable (price_monitoring_loop envs b)"

text \<open>A tick, and a round of the loop, during which no handler writes to the registry.\<close>

definition quiet_tick ::
    "(user_id \<Rightarrow> string \<Rightarrow> pyfloat option) \<Rightarrow> (user_id \<Rightarrow> TargetLevel \<Rightarrow> pyfloat \<Rightarrow> bool)
      \<Rightarrow> tick_env" where
  "quiet_tick prices ok =
     \<lparr>price_of = prices, send_message_ok = ok,
      during_lookup = (\<lambda>u s. []), during_send = (\<lambda>u s. [])\<rparr>"

definition quiet_round ::
    "(user_id \<Rightarrow> string \<Rightarrow> pyfloat option) \<times> (user_id \<Rightarrow> TargetLevel \<Rightarrow> pyfloat \<Rightarrow> bool)
      \<Rightarrow> round_env" where
  "quiet_round po = \<lparr>tick = quiet_tick (fst po) (snd po), during_sleep = []\<rparr>"

text \<open>The trigger condition of an item under given prices.\<close>

definition hit :: "(user_id \<Rightarrow> string \<Rightarrow> pyfloat option) \<Rightarrow> user_id \<Rightarrow> string \<times> TargetLevel \<Rightarrow> bool" where
  "hit prices u e =
     (case prices u (fst e) of None \<Rightarrow> False | Some p \<Rightarrow> fle p (target_price (snd e)))"

text \<open>How a call of \<open>send_target_hit_alert\<close> ends when nothing interferes.\<close>

definition alert_outcome ::
    "(user_id \<Rightarrow> TargetLevel \<Rightarrow> pyfloat \<Rightarrow> bool) \<Rightarrow> user_id \<Rightarrow> TargetLevel \<Rightarrow> pyfloat
      \<Rightarrow> notify_outcome" where
  "alert_outcome ok u lv p =
     (if is_zero (target_price lv) then Failed ZeroDivisionError
      else if ok u lv p then Sent else Failed TelegramError)"

text \<open>The calls of the notifier for a user's symbol among some events.\<close>

fun concerns :: "user_id \<Rightarrow> string \<Rightarrow> event \<Rightarrow> bool" where
  "concerns u s (Notify u' lv p out) = (u' = u \<and> symbol lv = s)"
| "concerns u s e = False"

fun is_sleep :: "event \<Rightarrow> bool" where
  "is_sleep (Sleep t) = True"
| "is_sleep e = False"

text \<open>
  The notifier call a tick makes for an item when nothing interferes, and the registry after
  the tick has gone over a user: the items that hit are popped.
\<close>

definition alert_of ::
    "(user_id \<Rightarrow> string \<Rightarrow> pyfloat option) \<Rightarrow> (user_id \<Rightarrow> TargetLevel \<Rightarrow> pyfloat \<Rightarrow> bool)
      \<Rightarrow> user_id \<Rightarrow> string \<times> TargetLevel \<Rightarrow> event list" where
  "alert_of prices ok u e =
     (case prices u (fst e) of
        None \<Rightarrow> []
      | Some p \<Rightarrow>
          if fle p (target_price (snd e))
          then [Notify u (snd e) p (alert_outcome ok u (snd e) p)] else [])"

definition sweep_user :: "(user_id \<Rightarrow> string \<Rightarrow> pyfloat option) \<Rightarrow> user_id \<Rightarrow> registry \<Rightarrow> registry" where
  "sweep_user prices u r =
     fold (\<lambda>e. pop_level u (fst e)) (filter (hit prices u) (levels_of r u)) r"

fun is_notify :: "event \<Rightarrow> bool" where
  "is_notify (Notify u lv p out) = True"
| "is_notify e = False"

text \<open>What was written to the journal between an earlier state and a later one.\<close>

definition written :: "bot \<Rightarrow> bot \<Rightarrow> event list" where
  "written b b' = drop (length (journal b)) (journal b')"

text \<open>Two strings that differ at most in the case of their letters.\<close>

definition case_variant :: "string \<Rightarrow> string \<Rightarrow> bool" where
  "case_variant s t = list_all2 (\<lambda>c d. upper_char c = upper_char d) s t"

text \<open>The (symbol, level) pairs a reply to \<open>/list\<close> shows, in the order of its rows.\<close>

fun shown :: "reply \<Rightarrow> (string \<times> TargetLevel) list" where
  "shown (LevelsList n rows) = map (\<lambda>(i, s, lv, p, st). (s, lv)) rows"
| "shown r = []"

definition listed :: "reply list \<Rightarrow> (string \<times> TargetLevel) list" where
  "listed rs = concat (map shown rs)"

text \<open>
  Insertion order, told from a history of writes (latest first) without looking at any
  dict: \<open>born h u s\<close> is the position in the history of the write that inserted the entry
  user \<open>u\<close> now has for \<open>s\<close>, that is the first \<open>Store\<close> since \<open>s\<close> was last absent;
  \<open>None\<close> when there is no entry. \<open>replay\<close> performs the writes on the empty registry.
\<close>

fun born :: "mutation list \<Rightarrow> user_id \<Rightarrow> string \<Rightarrow> nat option" where
  "born [] u s = None"
| "born (Ensure u' # h) u s = born h u s"
| "born (Pop u' s' # h) u s = (if u' = u \<and> s' = s then None else born h u s)"
| "born (Store u' lv # h) u s =
     (if u' = u \<and> symbol lv = s
      then (case born h u s of None \<Rightarrow> Some (length h) | Some i \<Rightarrow> Some i)
      else born h u s)"

fun replay :: "mutation list \<Rightarrow> registry" where
  "replay [] = []"
| "replay (m # h) = mutate m (replay h)"

text \<open>
  \<open>earlier h u s t\<close>: both symbols have an entry and that of \<open>s\<close> was inserted first.
  \<open>in_order h u\<close>: the dict of user \<open>u\<close> after the history \<open>h\<close> holds exactly the symbols
  that have an entry, each once, in the order of their insertion.
\<close>

definition earlier :: "mutation list \<Rightarrow> user_id \<Rightarrow> string \<Rightarrow> string \<Rightarrow> bool" where
  "earlier h u s t =
     (case born h u s of
        None \<Rightarrow> False
      | Some i \<Rightarrow> (case born h u t of None \<Rightarrow> False | Some j \<Rightarrow> i < j))"

definition in_order :: "mutation list \<Rightarrow> user_id \<Rightarrow> bool" where
  "in_order h u =
     (let keys = map fst (levels_of (replay h) u) in
        distinct keys
        \<and> (\<forall>s. (s \<in> set keys) = (born h u s \<noteq> None))
        \<and> (\<forall>s i. born h u s = Some i \<longrightarrow> i < length h)
        \<and> sorted_wrt (earlier h u) keys)"

text \<open>
  For concrete scenarios: \<open>float()\<close> on the decimal integer literals, with an optional
  minus sign, where it is exact (below \<open>2^53\<close>); the scenarios use no other numeric
  strings, and every other string they use is one that \<open>float()\<close> rejects.
\<close>

definition digit_of :: "char \<Rightarrow> nat option" where
  "digit_of c = map_of (zip ''0123456789'' [0, 1, 2, 3, 4, 5, 6, 7, 8, 9]) c"

fun digits_value :: "string \<Rightarrow> nat \<Rightarrow> nat option" where
  "digits_value [] acc = Some acc"
| "digits_value (c # cs) acc =
     (case digit_of c of None \<Rightarrow> None | Some d \<Rightarrow> digits_value cs (10 * acc + d))"

definition float_literal :: "string \<Rightarrow> pyfloat option" where
  "float_literal s =
     (case s of
        [] \<Rightarrow> None
      | c # cs \<Rightarrow>
          if c = CHR ''-''
          then (if cs = [] then None
                else map_option (\<lambda>n. Finite (- real n)) (digits_value cs 0))
          else map_option (\<lambda>n. Finite (real n)) (digits_value s 0))"

text \<open>
  A scenario: user 7 watches \<open>SYM\<close> at 100 and \<open>ETH\<close> at 50; later \<open>SYM\<close> trades at 95
  and \<open>ETH\<close> at 60.
\<close>

definition level_sym :: TargetLevel where
  "level_sym = \<lparr>symbol = ''SYM'', target_price = Finite 100, created_at = 0\<rparr>"

definition level_eth :: TargetLevel where
  "level_eth = \<lparr>symbol = ''ETH'', target_price = Finite 50, created_at = 1\<rparr>"

definition demo_bot :: bot where
  "demo_bot =
     \<lparr>user_levels = [(7, [(''SYM'', level_sym), (''ETH'', level_eth)])],
      monitoring = True, journal = [Started]\<rparr>"

definition demo_prices :: "user_id \<Rightarrow> string \<Rightarrow> pyfloat option" where
  "demo_prices u s =
     (if s = ''SYM'' then Some (Finite 95) else if s = ''ETH'' then Some (Finite 60) else None)"

definition no_prices :: "user_id \<Rightarrow> string \<Rightarrow> pyfloat option" where
  "no_prices u s = None"

definition delivered :: "user_id \<Rightarrow> TargetLevel \<Rightarrow> pyfloat \<Rightarrow> bool" where
  "delivered u lv p = True"

definition undelivered :: "user_id \<Rightarrow> TargetLevel \<Rightarrow> pyfloat \<Rightarrow> bool" where
  "undelivered u lv p = False"

text \<open>
  The same scenario with a \<open>/remove SYM\<close> of user 7 landing while the monitor waits for the
  price of \<open>SYM\<close>; the surroundings of the handlers in the scenarios; a bot that has just
  started; and a history of writes that leads to the scenario's registry.
\<close>

definition race_tick :: tick_env where
  "race_tick =
     \<lparr>price_of = demo_prices, send_message_ok = delivered,
      during_lookup = (\<lambda>u s. if u = 7 \<and> s = ''SYM'' then [Pop 7 ''SYM''] else []),
      during_send = (\<lambda>u s. [])\<rparr>"

definition race_round :: round_env where
  "race_round = \<lparr>tick = race_tick, during_sleep = []\<rparr>"

definition demo_env :: cmd_env where
  "demo_env = \<lparr>float_of = float_literal, get_binance_price = demo_prices 7, now = 5\<rparr>"

definition empty_bot :: bot where
  "empty_bot = \<lparr>user_levels = [], monitoring = False, journal = []\<rparr>"

definition demo_history :: "mutation list" where
  "demo_history = [Store 7 level_sym, Store 7 level_eth, Store 7 level_sym, Ensure 7]"

text \<open>
  The calls of the notifier for a level of a user, and their number in the journal of a
  state. A level is \<open>stored\<close> when the registry holds this very value under its symbol.
\<close>

fun calls_for :: "user_id \<Rightarrow> TargetLevel \<Rightarrow> event \<Rightarrow> bool" where
  "calls_for u lv (Notify u' lv' p out) = (u' = u \<and> lv' = lv)"
| "calls_for u lv e = False"

definition alerts_for :: "user_id \<Rightarrow> TargetLevel \<Rightarrow> bot \<Rightarrow> nat" where
  "alerts_for u lv b = length (filter (calls_for u lv) (journal b))"

definition stored :: "registry \<Rightarrow> user_id \<Rightarrow> TargetLevel \<Rightarrow> bool" where
  "stored r u lv = (entry_of r u (symbol lv) = Some lv)"

text \<open>
  A tick, and a round of the loop, during whose waits no handler stores the level \<open>lv\<close> of
  user \<open>u\<close>; every other write may land.
\<close>

definition tick_never_stores :: "user_id \<Rightarrow> TargetLevel \<Rightarrow> tick_env \<Rightarrow> bool" where
  "tick_never_stores u lv env =
     (\<forall>u' s'. Store u lv \<notin> set (during_lookup env u' s') \<and> Store u lv \<notin> set (during_send env u' s'))"

definition never_stores :: "user_id \<Rightarrow> TargetLevel \<Rightarrow> round_env \<Rightarrow> bool" where
  "never_stores u lv env =
     (tick_never_stores u lv (tick env) \<and> Store u lv \<notin> set (during_sleep env))"

text \<open>
  From a state to a later one the notifier was called at most once for the level, after a call
  the level is not stored, and a level that was not stored was not called for and still is not
  stored.
\<close>

definition at_most_once :: "user_id \<Rightarrow> TargetLevel \<Rightarrow> bot \<Rightarrow> bot \<Rightarrow> bool" where
  "at_most_once u lv b b' =
     (alerts_for u lv b \<le> alerts_for u lv b'
      \<and> alerts_for u lv b' \<le> alerts_for u lv b + 1
      \<and> (alerts_for u lv b' = alerts_for u lv b + 1 \<longrightarrow> \<not> stored (user_levels b') u lv)
      \<and> (\<not> stored (user_levels b) u lv \<longrightarrow>
            alerts_for u lv b' = alerts_for u lv b \<and> \<not> stored (user_levels b') u lv))"

text \<open>
  More scenarios. An \<open>/add SYM 80\<close> of user 7 landing while the monitor waits for the price of
  \<open>SYM\<close>; the handlers' surroundings when no price is available; the scenario's registry
  before the monitor has started.
\<close>

definition lowered_sym :: TargetLevel where
  "lowered_sym = \<lparr>symbol = ''SYM'', target_price = Finite 80, created_at = 9\<rparr>"

definition lowering_tick :: tick_env where
  "lowering_tick =
     \<lparr>price_of = demo_prices, send_message_ok = delivered,
      during_lookup = (\<lambda>u s. if u = 7 \<and> s = ''SYM'' then [Store 7 lowered_sym] else []),
      during_send = (\<lambda>u s. [])\<rparr>"

definition offline_env :: cmd_env where
  "offline_env = \<lparr>float_of = float_literal, get_binance_price = (\<lambda>s. None), now = 5\<rparr>"

definition loaded_bot :: bot where
  "loaded_bot =
     \<lparr>user_levels = [(7, [(''SYM'', level_sym), (''ETH'', level_eth)])],
      monitoring = False, journal = []\<rparr>"

text \<open>
  Two rounds: in the first \<open>SYM\<close> trades at 120 and no price is available for \<open>ETH\<close>; in the
  second \<open>SYM\<close> trades at 95 and \<open>ETH\<close> at 40, and a \<open>/remove SYM\<close> of user 7 lands while the
  monitor waits for the price of \<open>SYM\<close>.
\<close>

definition outage_prices :: "user_id \<Rightarrow> string \<Rightarrow> pyfloat option" where
  "outage_prices u s = (if s = ''SYM'' then Some (Finite 120) else None)"

definition outage_round :: round_env where
  "outage_round = quiet_round (outage_prices, delivered)"

definition dip_prices :: "user_id \<Rightarrow> string \<Rightarrow> pyfloat option" where
  "dip_prices u s =
     (if s = ''SYM'' then Some (Finite 95) else if s = ''ETH'' then Some (Finite 40) else None)"

definition dip_race_round :: round_env where
  "dip_race_round =
     \<lparr>tick = \<lparr>price_of = dip_prices, send_message_ok = delivered,
              during_lookup = (\<lambda>u s. if u = 7 \<and> s = ''SYM'' then [Pop 7 ''SYM''] else []),
              during_send = (\<lambda>u s. [])\<rparr>,
      during_sleep = []\<rparr>"

text \<open>A deletion of user 7's \<open>SYM\<close> landing while \<open>/list\<close> waits for the price of \<open>SYM\<close>.\<close>

definition removal_landing :: "string \<Rightarrow> mutation list" where
  "removal_landing s = (if s = ''SYM'' then [Pop 7 ''SYM''] else [])"

section \<open>Facts about the registry\<close>

lemma set_update_subset: "set (AList.update k v al) \<subseteq> insert (k, v) (set al)"
  by (induction al) auto

lemma in_set_updateD: "x \<in> set (AList.update k v al) \<Longrightarrow> x = (k, v) \<or> x \<in> set al"
  using set_update_subset[of k v al] by auto

lemma levels_of_update:
  "levels_of (AList.update u d r) v = (if v = u then d else levels_of r v)"
  by (simp add: levels_of_def update_conv')

lemma levels_of_ensure_user: "levels_of (ensure_user u r) v = levels_of r v"
  by (auto simp: ensure_user_def levels_of_update) (simp add: levels_of_def)

lemma levels_of_set_level:
  "levels_of (set_level u lv r) v =
     (if v = u then AList.update (symbol lv) lv (levels_of r u) else levels_of r v)"
  by (simp add: set_level_def levels_of_update)

lemma levels_of_pop_level:
  "levels_of (pop_level u s r) v =
     (if v = u then AList.delete s (levels_of r u) else levels_of r v)"
proof (cases "map_of r u")
  case None
  then show ?thesis by (simp add: pop_level_def levels_of_def)
next
  case (Some d)
  show ?thesis
  proof (cases "map_of d s = None")
    case True
    then have "AList.delete s d = d" by (simp add: map_of_eq_None_iff)
    with Some True show ?thesis by (simp add: pop_level_def levels_of_def)
  next
    case False
    with Some show ?thesis by (auto simp: pop_level_def levels_of_update) (simp add: levels_of_def)
  qed
qed

lemma del_level_Inr: "del_level u s r = Inr r' \<Longrightarrow> r' = pop_level u s r"
  by (auto simp: del_level_def pop_level_def split: option.splits if_splits)

lemma del_level_Inl_iff: "(\<exists>e. del_level u s r = Inl e) \<longleftrightarrow> entry_of r u s = None"
  by (auto simp: del_level_def entry_of_def levels_of_def split: option.splits)

lemma del_level_present:
  "entry_of r u s = Some lv \<Longrightarrow> del_level u s r = Inr (pop_level u s r)"
  by (auto simp: del_level_def pop_level_def entry_of_def levels_of_def split: option.splits)

lemma keys_ensure_user:
  "map fst (ensure_user u r) = (if u \<in> set (map fst r) then map fst r else map fst r @ [u])"
  by (auto simp: ensure_user_def update_keys map_of_eq_None_iff)

lemma keys_update_present:
  "u \<in> set (map fst r) \<Longrightarrow> map fst (AList.update u d r) = map fst r"
  by (simp add: update_keys)

lemma keys_pop_level: "map fst (pop_level u s r) = map fst r"
  by (auto simp: pop_level_def update_keys split: option.splits dest: map_of_SomeD)
     (metis fst_conv image_eqI map_of_SomeD)

lemma keys_set_level:
  "map fst (set_level u lv r) = (if u \<in> set (map fst r) then map fst r else map fst r @ [u])"
  by (simp add: set_level_def update_keys)

lemma keys_mutate_prefix: "prefix (map fst r) (map fst (mutate m r))"
  by (cases m) (auto simp: keys_ensure_user keys_set_level keys_pop_level)

subsection \<open>Well-formedness is kept\<close>

lemma wf_levels_update:
  "wf_levels d \<Longrightarrow> wf_levels (AList.update (symbol lv) lv d)"
  unfolding wf_levels_def
  by (auto simp: distinct_update dest!: in_set_updateD)

lemma wf_levels_delete: "wf_levels d \<Longrightarrow> wf_levels (AList.delete s d)"
proof -
  assume wf: "wf_levels d"
  have "set (AList.delete s d) \<subseteq> set d" by (auto simp: AList.delete_eq)
  with wf show ?thesis unfolding wf_levels_def by (auto simp: distinct_delete)
qed

lemma wf_registry_levels_of: "wf_registry r \<Longrightarrow> wf_levels (levels_of r u)"
  by (auto simp: wf_registry_def levels_of_def wf_levels_def split: option.splits dest!: map_of_SomeD)

lemma wf_registry_update:
  "wf_registry r \<Longrightarrow> wf_levels d \<Longrightarrow> wf_registry (AList.update u d r)"
  unfolding wf_registry_def
  by (auto simp: distinct_update dest!: in_set_updateD)

lemma wf_ensure_user: "wf_registry r \<Longrightarrow> wf_registry (ensure_user u r)"
  by (simp add: ensure_user_def wf_registry_update wf_levels_def)

lemma wf_set_level: "wf_registry r \<Longrightarrow> wf_registry (set_level u lv r)"
  by (simp add: set_level_def wf_registry_update wf_levels_update wf_registry_levels_of)

lemma wf_pop_level: "wf_registry r \<Longrightarrow> wf_registry (pop_level u s r)"
  using wf_registry_levels_of[of r u]
  by (auto simp: pop_level_def levels_of_def wf_registry_update wf_levels_delete split: option.splits)

lemma wf_mutate: "wf_registry r \<Longrightarrow> wf_registry (mutate m r)"
  by (cases m) (simp_all add: wf_ensure_user wf_set_level wf_pop_level)

lemma wf_fold_mutate: "wf_registry r \<Longrightarrow> wf_registry (fold mutate ms r)"
  by (induction ms arbitrary: r) (simp_all add: wf_mutate)

lemma wf_replay: "wf_registry (replay h)"
proof (induction h)
  case Nil
  show ?case by (simp add: wf_registry_def)
next
  case (Cons m h)
  then show ?case by (simp add: wf_mutate)
qed

text \<open>
  Writes add users at the end and never remove one: while the number of users is what it was,
  the users are those that were there, in their order.
\<close>

lemma keys_fold_mutate_prefix: "prefix (map fst r) (map fst (fold mutate ms r))"
proof (induction ms arbitrary: r)
  case Nil
  show ?case by simp
next
  case (Cons m ms)
  have "prefix (map fst r) (map fst (mutate m r))" by (rule keys_mutate_prefix)
  also have "prefix (map fst (mutate m r)) (map fst (fold mutate ms (mutate m r)))" by (rule Cons.IH)
  finally show ?case by simp
qed

lemma keys_fold_mutate_same_size:
  assumes "length (fold mutate ms r) = length r"
  shows "map fst (fold mutate ms r) = map fst r"
proof -
  from keys_fold_mutate_prefix[of r ms] obtain zs where
    zs: "map fst (fold mutate ms r) = map fst r @ zs"
    by (auto simp: prefix_def)
  then have "length (fold mutate ms r) = length r + length zs"
    by (metis length_append length_map)
  with assms have "zs = []" by simp
  with zs show ?thesis by simp
qed

section \<open>A tick without interference\<close>

lemma interfere_Nil [simp]: "interfere [] b = b"
  by (simp add: interfere_def)

lemma quiet_tick_simps [simp]:
  "price_of (quiet_tick P ok) = P"
  "send_message_ok (quiet_tick P ok) = ok"
  "during_lookup (quiet_tick P ok) u s = []"
  "during_send (quiet_tick P ok) u s = []"
  by (simp_all add: quiet_tick_def)

lemma send_alert_quiet:
  "send_target_hit_alert (quiet_tick P ok) u lv p b =
     b\<lparr>journal := journal b @ [Notify u lv p (alert_outcome ok u lv p)]\<rparr>"
  by (simp add: send_target_hit_alert_def alert_outcome_def)

lemma entry_of_pop_level:
  "entry_of (pop_level u s r) v k =
     (if v = u \<and> k = s then None else entry_of r v k)"
  by (simp add: entry_of_def levels_of_pop_level delete_conv')

lemma scan_levels_quiet:
  assumes "distinct (map fst items)"
    and "\<forall>e \<in> set items. entry_of (user_levels b) u (fst e) \<noteq> None"
  shows "scan_levels (quiet_tick P ok) u items n b =
     (Ok (n + length (filter (\<lambda>e. P u (fst e) \<noteq> None) items)),
      b\<lparr>user_levels := fold (\<lambda>e. pop_level u (fst e)) (filter (hit P u) items) (user_levels b),
        journal := journal b @ concat (map (alert_of P ok u) items)\<rparr>)"
  using assms
proof (induction items arbitrary: n b)
  case Nil
  then show ?case by simp
next
  case (Cons e items)
  obtain s lv where e: "e = (s, lv)" by (cases e)
  from Cons.prems have dist: "distinct (map fst items)" and fresh: "s \<notin> fst ` set items"
    and here: "entry_of (user_levels b) u s \<noteq> None"
    and there: "\<forall>e \<in> set items. entry_of (user_levels b) u (fst e) \<noteq> None"
    by (auto simp: e)
  show ?case
  proof (cases "hit P u e")
    case False
    then show ?thesis
      using Cons.IH[OF dist there] 
      by (auto simp: e hit_def alert_of_def split: option.splits)
  next
    case True
    then obtain p where p: "P u s = Some p" "fle p (target_price lv)"
      by (auto simp: e hit_def split: option.splits)
    from here obtain old where "entry_of (user_levels b) u s = Some old" by auto
    then have del: "del_level u s (user_levels b) = Inr (pop_level u s (user_levels b))"
      by (rule del_level_present)
    let ?b2 = "b\<lparr>journal := journal b @ [Notify u lv p (alert_outcome ok u lv p)],
                  user_levels := pop_level u s (user_levels b)\<rparr>"
    have there': "\<forall>e \<in> set items. entry_of (user_levels ?b2) u (fst e) \<noteq> None"
      using there fresh by (auto simp: entry_of_pop_level)
    show ?thesis
      using Cons.IH[OF dist there', of "Suc n"] True p del
      by (simp add: e send_alert_quiet alert_of_def)
  qed
qed

lemma levels_of_fold_pop:
  "levels_of (fold (\<lambda>e. pop_level u (fst e)) es r) v =
     (if v = u then filter (\<lambda>e. fst e \<notin> fst ` set es) (levels_of r u) else levels_of r v)"
proof (induction es arbitrary: r)
  case Nil
  then show ?case by simp
next
  case (Cons e es)
  have "filter (\<lambda>x. fst x \<notin> fst ` set es) (AList.delete (fst e) (levels_of r u)) =
        filter (\<lambda>x. fst x \<noteq> fst e \<and> fst x \<notin> fst ` set es) (levels_of r u)"
    by (auto simp: AList.delete_eq intro!: filter_cong)
  with Cons show ?case by (simp add: levels_of_pop_level)
qed

lemma keys_fold_pop: "map fst (fold (\<lambda>e. pop_level u (fst e)) es r) = map fst r"
  by (induction es arbitrary: r) (simp_all add: keys_pop_level)

lemma wf_fold_pop: "wf_registry r \<Longrightarrow> wf_registry (fold (\<lambda>e. pop_level u (fst e)) es r)"
  by (induction es arbitrary: r) (simp_all add: wf_pop_level)

lemma same_key_same_item:
  "distinct (map fst d) \<Longrightarrow> x \<in> set d \<Longrightarrow> y \<in> set d \<Longrightarrow> fst x = fst y \<Longrightarrow> x = y"
  by (metis eq_key_imp_eq_value prod.collapse)

lemma levels_of_sweep_user:
  assumes "wf_registry r"
  shows "levels_of (sweep_user P u r) v =
     (if v = u then filter (\<lambda>e. \<not> hit P u e) (levels_of r u) else levels_of r v)"
proof -
  have dist: "distinct (map fst (levels_of r u))"
    using wf_registry_levels_of[OF assms, of u] by (simp add: wf_levels_def)
  have "filter (\<lambda>e. fst e \<notin> fst ` set (filter (hit P u) (levels_of r u))) (levels_of r u) =
        filter (\<lambda>e. \<not> hit P u e) (levels_of r u)"
  proof (rule filter_cong[OF refl])
    fix x assume x: "x \<in> set (levels_of r u)"
    show "(fst x \<notin> fst ` set (filter (hit P u) (levels_of r u))) = (\<not> hit P u x)"
    proof
      assume "fst x \<notin> fst ` set (filter (hit P u) (levels_of r u))"
      with x show "\<not> hit P u x" by force
    next
      assume n: "\<not> hit P u x"
      show "fst x \<notin> fst ` set (filter (hit P u) (levels_of r u))"
      proof
        assume "fst x \<in> fst ` set (filter (hit P u) (levels_of r u))"
        then obtain y where y: "y \<in> set (levels_of r u)" "hit P u y" "fst x = fst y" by auto
        with same_key_same_item[OF dist x] have "x = y" by blast
        with n y show False by simp
      qed
    qed
  qed
  then show ?thesis by (simp add: sweep_user_def levels_of_fold_pop)
qed

lemma keys_sweep_user: "map fst (sweep_user P u r) = map fst r"
  by (simp add: sweep_user_def keys_fold_pop)

lemma wf_sweep_user: "wf_registry r \<Longrightarrow> wf_registry (sweep_user P u r)"
  by (simp add: sweep_user_def wf_fold_pop)

lemma levels_present:
  "distinct (map fst (levels_of r u)) \<Longrightarrow> \<forall>e \<in> set (levels_of r u). entry_of r u (fst e) \<noteq> None"
  by (auto simp: entry_of_def map_of_eq_None_iff)

text \<open>The whole pass over the users, when nothing interferes.\<close>

lemma keys_fold_sweep: "map fst (fold (sweep_user P) us r) = map fst r"
  by (induction us arbitrary: r) (simp_all add: keys_sweep_user)

lemma wf_fold_sweep: "wf_registry r \<Longrightarrow> wf_registry (fold (sweep_user P) us r)"
  by (induction us arbitrary: r) (simp_all add: wf_sweep_user)

lemma levels_of_fold_sweep:
  "wf_registry r \<Longrightarrow> distinct us \<Longrightarrow>
   levels_of (fold (sweep_user P) us r) v =
     (if v \<in> set us then filter (\<lambda>e. \<not> hit P v e) (levels_of r v) else levels_of r v)"
proof (induction us arbitrary: r)
  case Nil
  then show ?case by simp
next
  case (Cons u us)
  then show ?case
    by (auto simp: wf_sweep_user levels_of_sweep_user)
qed

lemma scan_users_quiet:
  assumes "wf_registry (user_levels b)" and "distinct us"
    and "length (user_levels b) = size0"
  shows "\<exists>n'. scan_users (quiet_tick P ok) size0 us n b =
     (Ok n',
      b\<lparr>user_levels := fold (sweep_user P) us (user_levels b),
        journal := journal b @
          concat (map (\<lambda>u. concat (map (alert_of P ok u) (levels_of (user_levels b) u))) us)\<rparr>)"
  using assms
proof (induction us arbitrary: n b)
  case Nil
  then show ?case by simp
next
  case (Cons u us)
  let ?r = "user_levels b"
  let ?d = "levels_of ?r u"
  have dist: "distinct (map fst ?d)"
    using wf_registry_levels_of[OF Cons.prems(1), of u] by (simp add: wf_levels_def)
  let ?m = "n + length (filter (\<lambda>e. P u (fst e) \<noteq> None) ?d)"
  let ?b1 = "b\<lparr>user_levels := sweep_user P u ?r,
               journal := journal b @ concat (map (alert_of P ok u) ?d)\<rparr>"
  have inner: "scan_levels (quiet_tick P ok) u ?d n b = (Ok ?m, ?b1)"
    using scan_levels_quiet[OF dist levels_present[OF dist], of P ok n]
    by (simp add: sweep_user_def)
  have wf1: "wf_registry (user_levels ?b1)"
    using Cons.prems(1) by (simp add: wf_sweep_user)
  have len1: "length (user_levels ?b1) = size0"
    using Cons.prems(3) keys_sweep_user[of P u ?r] by (simp, metis length_map)
  have d1: "distinct us" and fresh: "u \<notin> set us" using Cons.prems(2) by auto
  have same: "\<forall>v \<in> set us. levels_of (sweep_user P u ?r) v = levels_of ?r v"
    using fresh Cons.prems(1) by (auto simp: levels_of_sweep_user)
  have evs: "map (\<lambda>v. concat (map (alert_of P ok v) (levels_of (sweep_user P u ?r) v))) us =
      map (\<lambda>v. concat (map (alert_of P ok v) (levels_of ?r v))) us"
    using same by (intro map_cong) auto
  from Cons.IH[OF wf1 d1 len1, of ?m]
  obtain n' where rest: "scan_users (quiet_tick P ok) size0 us ?m ?b1 =
      (Ok n', ?b1\<lparr>user_levels := fold (sweep_user P) us (user_levels ?b1),
        journal := journal ?b1 @
          concat (map (\<lambda>v. concat (map (alert_of P ok v) (levels_of (user_levels ?b1) v))) us)\<rparr>)"
    by blast
  have "scan_users (quiet_tick P ok) size0 (u # us) n b =
          scan_users (quiet_tick P ok) size0 us ?m ?b1"
    using Cons.prems(3) by (simp only: scan_users.simps inner) simp
  also have "\<dots> = (Ok n',
      b\<lparr>user_levels := fold (sweep_user P) (u # us) ?r,
        journal := journal b @
          concat (map (\<lambda>v. concat (map (alert_of P ok v) (levels_of ?r v))) (u # us))\<rparr>)"
    unfolding rest by (simp add: evs)
  finally show ?case by blast
qed

lemma concerns_alert_of:
  "filter (concerns u s) (alert_of P ok v e) =
     (if v = u \<and> symbol (snd e) = s then alert_of P ok v e else [])"
  by (auto simp: alert_of_def split: option.splits)

lemma concerns_alerts_levels:
  assumes "wf_levels d"
  shows "filter (concerns u s) (concat (map (alert_of P ok v) d)) =
     (if v = u then (case map_of d s of None \<Rightarrow> [] | Some lv \<Rightarrow> alert_of P ok u (s, lv)) else [])"
  using assms
proof (induction d)
  case Nil
  then show ?case by simp
next
  case (Cons e d)
  obtain k lv where e: "e = (k, lv)" by (cases e)
  from Cons.prems have wf: "wf_levels d" and key: "symbol lv = k" and fresh: "k \<notin> fst ` set d"
    by (auto simp: wf_levels_def e)
  from fresh have none: "map_of d k = None" by (simp add: map_of_eq_None_iff)
  show ?case
    using Cons.IH[OF wf] key none by (auto simp: e concerns_alert_of)
qed

lemma concerns_alerts_users:
  assumes "wf_registry r" and "distinct us"
  shows "filter (concerns u s)
           (concat (map (\<lambda>v. concat (map (alert_of P ok v) (levels_of r v))) us)) =
     (if u \<in> set us
      then (case entry_of r u s of None \<Rightarrow> [] | Some lv \<Rightarrow> alert_of P ok u (s, lv)) else [])"
  using assms(2)
proof (induction us)
  case Nil
  then show ?case by simp
next
  case (Cons v us)
  then show ?case
    using concerns_alerts_levels[OF wf_registry_levels_of[OF assms(1)], of u s P ok]
    by (auto simp: entry_of_def)
qed

lemma levels_of_absent: "u \<notin> set (map fst r) \<Longrightarrow> levels_of r u = []"
proof -
  assume "u \<notin> set (map fst r)"
  then have "map_of r u = None" by (simp add: map_of_eq_None_iff)
  then show ?thesis by (simp add: levels_of_def)
qed

lemma check_all_levels_quiet:
  assumes wf: "wf_registry (user_levels b)"
  shows "\<exists>chk. check_all_levels (quiet_tick P ok) b =
     (Ok (),
      b\<lparr>user_levels := fold (sweep_user P) (map fst (user_levels b)) (user_levels b),
        journal := journal b @
          concat (map (\<lambda>u. concat (map (alert_of P ok u) (levels_of (user_levels b) u)))
                   (map fst (user_levels b))) @ chk\<rparr>)
     \<and> (\<forall>e \<in> set chk. \<exists>n. e = Checked n)"
proof -
  from wf have "distinct (map fst (user_levels b))" by (simp add: wf_registry_def)
  from scan_users_quiet[OF wf this refl, of P ok 0]
  obtain n' where scan: "scan_users (quiet_tick P ok) (length (user_levels b)) (map fst (user_levels b)) 0 b =
     (Ok n',
      b\<lparr>user_levels := fold (sweep_user P) (map fst (user_levels b)) (user_levels b),
        journal := journal b @
          concat (map (\<lambda>u. concat (map (alert_of P ok u) (levels_of (user_levels b) u)))
                   (map fst (user_levels b)))\<rparr>)"
    by blast
  show ?thesis
  proof (cases "0 < n'")
    case True
    then show ?thesis
      by (intro exI[of _ "[Checked n']"]) (simp add: check_all_levels_def scan)
  next
    case False
    then show ?thesis
      by (intro exI[of _ "[]"]) (simp add: check_all_levels_def scan)
  qed
qed

text \<open>What a tick without interference does, entry by entry.\<close>

lemma quiet_tick_effect:
  assumes wf: "wf_registry (user_levels b)"
  shows "\<exists>b' evs. check_all_levels (quiet_tick P ok) b = (Ok (), b')
     \<and> journal b' = journal b @ evs
     \<and> monitoring b' = monitoring b
     \<and> wf_registry (user_levels b')
     \<and> map fst (user_levels b') = map fst (user_levels b)
     \<and> (\<forall>u. levels_of (user_levels b') u = filter (\<lambda>e. \<not> hit P u e) (levels_of (user_levels b) u))
     \<and> (\<forall>u s. filter (concerns u s) evs =
           (case entry_of (user_levels b) u s of None \<Rightarrow> [] | Some lv \<Rightarrow> alert_of P ok u (s, lv)))"
proof -
  let ?r = "user_levels b"
  let ?us = "map fst ?r"
  let ?al = "concat (map (\<lambda>u. concat (map (alert_of P ok u) (levels_of ?r u))) ?us)"
  from wf have dist: "distinct ?us" by (simp add: wf_registry_def)
  from check_all_levels_quiet[OF wf, of P ok] obtain chk where
    run: "check_all_levels (quiet_tick P ok) b =
       (Ok (), b\<lparr>user_levels := fold (sweep_user P) ?us ?r, journal := journal b @ ?al @ chk\<rparr>)"
    and chk: "\<forall>e \<in> set chk. \<exists>n. e = Checked n"
    by blast
  have lev: "levels_of (fold (sweep_user P) ?us ?r) u = filter (\<lambda>e. \<not> hit P u e) (levels_of ?r u)" for u
    using levels_of_fold_sweep[OF wf dist, of P u] levels_of_absent[of u ?r] by auto
  have nochk: "filter (concerns u s) chk = []" for u s
    using chk by (auto simp: filter_empty_conv)
  have absent: "u \<notin> set ?us \<Longrightarrow> entry_of ?r u s = None" for u s
    by (simp add: entry_of_def levels_of_absent)
  have con: "filter (concerns u s) (?al @ chk) =
      (case entry_of ?r u s of None \<Rightarrow> [] | Some lv \<Rightarrow> alert_of P ok u (s, lv))" for u s
    using concerns_alerts_users[OF wf dist, of u s P ok] nochk[of u s] absent[of u s]
    by (cases "u \<in> set ?us") simp_all
  define b' where
    "b' = b\<lparr>user_levels := fold (sweep_user P) ?us ?r, journal := journal b @ ?al @ chk\<rparr>"
  have 1: "check_all_levels (quiet_tick P ok) b = (Ok (), b')"
    unfolding run b'_def ..
  have 2: "journal b' = journal b @ (?al @ chk)" and 3: "monitoring b' = monitoring b"
    and r': "user_levels b' = fold (sweep_user P) ?us ?r"
    by (simp_all add: b'_def del: map_map)
  have 4: "wf_registry (user_levels b')" and 5: "map fst (user_levels b') = ?us"
    unfolding r' by (rule wf_fold_sweep[OF wf], rule keys_fold_sweep)
  have 6: "\<forall>u. levels_of (user_levels b') u = filter (\<lambda>e. \<not> hit P u e) (levels_of ?r u)"
    unfolding r' using lev by blast
  from 1 2 3 4 5 6 con show ?thesis by blast
qed

section \<open>A tick under any interference\<close>

text \<open>Any tick, whatever interferes: the journal only grows, by calls of the notifier.\<close>

lemma interfere_fields [simp]:
  "journal (interfere ms b) = journal b"
  "monitoring (interfere ms b) = monitoring b"
  "user_levels (interfere ms b) = fold mutate ms (user_levels b)"
  by (simp_all add: interfere_def)

lemma send_alert_journal:
  "\<exists>out. journal (send_target_hit_alert env u lv p b) = journal b @ [Notify u lv p out]"
  by (simp add: send_target_hit_alert_def Let_def)

lemma send_alert_monitoring:
  "monitoring (send_target_hit_alert env u lv p b) = monitoring b"
  by (simp add: send_target_hit_alert_def Let_def)

text \<open>What a tick does to the registry is a sequence of writes: those of the handlers and its own deletions.\<close>

lemma send_alert_writes:
  "\<exists>ms. user_levels (send_target_hit_alert env u lv p b) = fold mutate ms (user_levels b)"
proof (cases "is_zero (target_price lv)")
  case True
  then have "user_levels (send_target_hit_alert env u lv p b) = fold mutate [] (user_levels b)"
    by (simp add: send_target_hit_alert_def)
  then show ?thesis by blast
next
  case False
  then have "user_levels (send_target_hit_alert env u lv p b) =
      fold mutate (during_send env u (symbol lv)) (user_levels b)"
    by (simp add: send_target_hit_alert_def Let_def)
  then show ?thesis by blast
qed

lemma scan_levels_any:
  "\<exists>evs ms. journal (snd (scan_levels env u items n b)) = journal b @ evs
     \<and> (\<forall>e \<in> set evs. is_notify e)
     \<and> monitoring (snd (scan_levels env u items n b)) = monitoring b
     \<and> user_levels (snd (scan_levels env u items n b)) = fold mutate ms (user_levels b)"
proof (induction items arbitrary: n b)
  case Nil
  have "user_levels b = fold mutate [] (user_levels b)" by simp
  then show ?case by (intro exI[of _ "[]"]) simp
next
  case (Cons e items)
  obtain s lv where e: "e = (s, lv)" by (cases e)
  let ?b1 = "interfere (during_lookup env u s) b"
  have skip: ?case if run: "scan_levels env u (e # items) n b = scan_levels env u items n' ?b1" for n'
  proof -
    from Cons.IH[of n' ?b1] obtain evs ms where
      "journal (snd (scan_levels env u items n' ?b1)) = journal ?b1 @ evs"
      "\<forall>e \<in> set evs. is_notify e"
      "monitoring (snd (scan_levels env u items n' ?b1)) = monitoring ?b1"
      "user_levels (snd (scan_levels env u items n' ?b1)) = fold mutate ms (user_levels ?b1)"
      by blast
    then show ?thesis
      unfolding run
      by (intro exI[of _ evs] exI[of _ "during_lookup env u s @ ms"]) simp
  qed
  show ?case
  proof (cases "price_of env u s")
    case None
    then show ?thesis by (intro skip[of n]) (simp add: e)
  next
    case (Some p)
    show ?thesis
    proof (cases "fle p (target_price lv)")
      case False
      with Some show ?thesis by (intro skip[of "Suc n"]) (simp add: e)
    next
      case True
      let ?b2 = "send_target_hit_alert env u lv p ?b1"
      from send_alert_journal[of env u lv p ?b1] obtain out where
        j2: "journal ?b2 = journal b @ [Notify u lv p out]" by auto
      have m2: "monitoring ?b2 = monitoring b" by (simp add: send_alert_monitoring)
      from send_alert_writes[of env u lv p ?b1] obtain ms2 where
        r2: "user_levels ?b2 = fold mutate (during_lookup env u s @ ms2) (user_levels b)"
        by auto
      show ?thesis
      proof (cases "del_level u s (user_levels ?b2)")
        case (Inl x)
        then have "scan_levels env u (e # items) n b = (Raise x, ?b2)"
          using Some True by (simp add: e Let_def)
        with j2 m2 r2 show ?thesis
          by (intro exI[of _ "[Notify u lv p out]"] exI[of _ "during_lookup env u s @ ms2"]) simp
      next
        case (Inr r)
        let ?b3 = "?b2\<lparr>user_levels := r\<rparr>"
        from Inr have run: "scan_levels env u (e # items) n b = scan_levels env u items (Suc n) ?b3"
          using Some True by (simp add: e Let_def)
        from Inr have "r = pop_level u s (user_levels ?b2)" by (rule del_level_Inr)
        with r2 have r3: "user_levels ?b3 =
            fold mutate (during_lookup env u s @ ms2 @ [Pop u s]) (user_levels b)"
          by simp
        from Cons.IH[of "Suc n" ?b3] obtain evs ms where
          "journal (snd (scan_levels env u items (Suc n) ?b3)) = journal ?b3 @ evs"
          "\<forall>e \<in> set evs. is_notify e"
          "monitoring (snd (scan_levels env u items (Suc n) ?b3)) = monitoring ?b3"
          "user_levels (snd (scan_levels env u items (Suc n) ?b3)) = fold mutate ms (user_levels ?b3)"
          by blast
        with j2 m2 r3 show ?thesis
          unfolding run
          by (intro exI[of _ "Notify u lv p out # evs"]
                exI[of _ "during_lookup env u s @ ms2 @ [Pop u s] @ ms"]) simp
      qed
    qed
  qed
qed

lemma scan_users_any:
  "\<exists>evs ms. journal (snd (scan_users env size0 us n b)) = journal b @ evs
     \<and> (\<forall>e \<in> set evs. is_notify e)
     \<and> monitoring (snd (scan_users env size0 us n b)) = monitoring b
     \<and> user_levels (snd (scan_users env size0 us n b)) = fold mutate ms (user_levels b)"
proof (induction us arbitrary: n b)
  case Nil
  have "user_levels b = fold mutate [] (user_levels b)" by simp
  then show ?case by (intro exI[of _ "[]"]) simp
next
  case (Cons u us)
  have stay: "user_levels b = fold mutate [] (user_levels b)" by simp
  show ?case
  proof (cases "length (user_levels b) \<noteq> size0")
    case True
    with stay show ?thesis by (intro exI[of _ "[]"]) simp
  next
    case False
    let ?inner = "scan_levels env u (levels_of (user_levels b) u) n b"
    from scan_levels_any[of env u "levels_of (user_levels b) u" n b] obtain evs ms where
      inner: "journal (snd ?inner) = journal b @ evs" "\<forall>e \<in> set evs. is_notify e"
        "monitoring (snd ?inner) = monitoring b"
        "user_levels (snd ?inner) = fold mutate ms (user_levels b)"
      by blast
    show ?thesis
    proof (cases ?inner)
      case (Pair res b1)
      show ?thesis
      proof (cases res)
        case (Raise x)
        with Pair False inner show ?thesis
          by (intro exI[of _ evs] exI[of _ ms]) simp
      next
        case (Ok n1)
        with Pair False have run: "scan_users env size0 (u # us) n b = scan_users env size0 us n1 b1"
          by simp
        from Cons.IH[of n1 b1] obtain evs' ms' where
          "journal (snd (scan_users env size0 us n1 b1)) = journal b1 @ evs'"
          "\<forall>e \<in> set evs'. is_notify e"
          "monitoring (snd (scan_users env size0 us n1 b1)) = monitoring b1"
          "user_levels (snd (scan_users env size0 us n1 b1)) = fold mutate ms' (user_levels b1)"
          by blast
        with inner Pair show ?thesis
          unfolding run by (intro exI[of _ "evs @ evs'"] exI[of _ "ms @ ms'"]) auto
      qed
    qed
  qed
qed

lemma check_all_levels_any:
  "\<exists>evs ms. journal (snd (check_all_levels env b)) = journal b @ evs
     \<and> (\<forall>e \<in> set evs. \<not> is_sleep e)
     \<and> monitoring (snd (check_all_levels env b)) = monitoring b
     \<and> user_levels (snd (check_all_levels env b)) = fold mutate ms (user_levels b)"
proof -
  let ?scan = "scan_users env (length (user_levels b)) (map fst (user_levels b)) 0 b"
  from scan_users_any[of env "length (user_levels b)" "map fst (user_levels b)" 0 b]
  obtain evs ms where scan: "journal (snd ?scan) = journal b @ evs" "\<forall>e \<in> set evs. is_notify e"
      "monitoring (snd ?scan) = monitoring b"
      "user_levels (snd ?scan) = fold mutate ms (user_levels b)"
    by blast
  have ns: "\<forall>e \<in> set evs. \<not> is_sleep e"
  proof
    fix e assume "e \<in> set evs"
    with scan(2) have "is_notify e" by blast
    then show "\<not> is_sleep e" by (cases e) auto
  qed
  show ?thesis
  proof (cases ?scan)
    case (Pair res b1)
    show ?thesis
    proof (cases res)
      case (Raise x)
      with Pair scan ns show ?thesis
        by (intro exI[of _ evs] exI[of _ ms]) (auto simp: check_all_levels_def)
    next
      case (Ok n1)
      show ?thesis
      proof (cases "0 < n1")
        case True
        with Ok Pair scan ns show ?thesis
          by (intro exI[of _ "evs @ [Checked n1]"] exI[of _ ms]) (auto simp: check_all_levels_def)
      next
        case False
        with Ok Pair scan ns show ?thesis
          by (intro exI[of _ evs] exI[of _ ms]) (auto simp: check_all_levels_def)
      qed
    qed
  qed
qed

lemma wf_check_all_levels:
  "wf_registry (user_levels b) \<Longrightarrow> wf_registry (user_levels (snd (check_all_levels env b)))"
  using check_all_levels_any[of env b] by (auto simp: wf_fold_mutate)

section \<open>Rounds of the loop without interference\<close>

lemma fgt_not_fle: "fgt a b \<Longrightarrow> \<not> fle a b"
  by (cases a; cases b) (auto simp: fgt_def)

lemma written_append: "journal b' = journal b @ evs \<Longrightarrow> written b b' = evs"
  by (simp add: written_def)

lemma map_of_filter_keep:
  "distinct (map fst d) \<Longrightarrow> map_of d k = Some v \<Longrightarrow> Q (k, v) \<Longrightarrow> map_of (filter Q d) k = Some v"
  by (induction d) (auto simp: rev_image_eqI)

lemma map_of_filter_drop:
  "distinct (map fst d) \<Longrightarrow> map_of d k = Some v \<Longrightarrow> \<not> Q (k, v) \<Longrightarrow> map_of (filter Q d) k = None"
  by (induction d) (auto simp: map_of_eq_None_iff image_iff)

lemma map_of_filter_none: "map_of d k = None \<Longrightarrow> map_of (filter Q d) k = None"
  by (auto simp: map_of_eq_None_iff)

lemma entry_after_sweep:
  assumes "wf_registry r"
  shows "map_of (filter (\<lambda>e. \<not> hit P u e) (levels_of r u)) s =
     (case entry_of r u s of
        None \<Rightarrow> None
      | Some lv \<Rightarrow> if hit P u (s, lv) then None else Some lv)"
proof -
  have dist: "distinct (map fst (levels_of r u))"
    using wf_registry_levels_of[OF assms, of u] by (simp add: wf_levels_def)
  show ?thesis
    using map_of_filter_keep[OF dist, of s _ "\<lambda>e. \<not> hit P u e"]
      map_of_filter_drop[OF dist, of s _ "\<lambda>e. \<not> hit P u e"]
      map_of_filter_none[of "levels_of r u" s "\<lambda>e. \<not> hit P u e"]
    by (auto simp: entry_of_def split: option.splits)
qed

text \<open>One round of the loop without interference: the tick, then the long sleep.\<close>

lemma quiet_round_effect:
  assumes wf: "wf_registry (user_levels b)"
  shows "\<exists>evs. journal (monitor_round (quiet_round (P, ok)) b) = journal b @ evs
     \<and> wf_registry (user_levels (monitor_round (quiet_round (P, ok)) b))
     \<and> (\<forall>u s. entry_of (user_levels (monitor_round (quiet_round (P, ok)) b)) u s =
           (case entry_of (user_levels b) u s of
              None \<Rightarrow> None
            | Some lv \<Rightarrow> if hit P u (s, lv) then None else Some lv))
     \<and> (\<forall>u s. filter (concerns u s) evs =
           (case entry_of (user_levels b) u s of None \<Rightarrow> [] | Some lv \<Rightarrow> alert_of P ok u (s, lv)))"
proof -
  from quiet_tick_effect[OF wf, of P ok] obtain b' evs where
    run: "check_all_levels (quiet_tick P ok) b = (Ok (), b')"
    and j: "journal b' = journal b @ evs"
    and wf': "wf_registry (user_levels b')"
    and lev: "\<forall>u. levels_of (user_levels b') u = filter (\<lambda>e. \<not> hit P u e) (levels_of (user_levels b) u)"
    and con: "\<forall>u s. filter (concerns u s) evs =
           (case entry_of (user_levels b) u s of None \<Rightarrow> [] | Some lv \<Rightarrow> alert_of P ok u (s, lv))"
    by blast
  have round: "monitor_round (quiet_round (P, ok)) b = b'\<lparr>journal := journal b' @ [Sleep 300]\<rparr>"
    by (simp add: monitor_round_def quiet_round_def run sleep_def)
  have ent: "entry_of (user_levels b') u s =
      (case entry_of (user_levels b) u s of
         None \<Rightarrow> None | Some lv \<Rightarrow> if hit P u (s, lv) then None else Some lv)" for u s
    using lev entry_after_sweep[OF wf, of P u s] by (simp add: entry_of_def)
  have con': "filter (concerns u s) (evs @ [Sleep 300]) =
      (case entry_of (user_levels b) u s of None \<Rightarrow> [] | Some lv \<Rightarrow> alert_of P ok u (s, lv))" for u s
    using con by simp
  have j': "journal (monitor_round (quiet_round (P, ok)) b) = journal b @ (evs @ [Sleep 300])"
    by (simp add: round j)
  have wf'': "wf_registry (user_levels (monitor_round (quiet_round (P, ok)) b))"
    by (simp add: round wf')
  have ent': "\<forall>u s. entry_of (user_levels (monitor_round (quiet_round (P, ok)) b)) u s =
      (case entry_of (user_levels b) u s of
         None \<Rightarrow> None | Some lv \<Rightarrow> if hit P u (s, lv) then None else Some lv)"
    using ent by (simp add: round)
  have con'': "\<forall>u s. filter (concerns u s) (evs @ [Sleep 300]) =
      (case entry_of (user_levels b) u s of None \<Rightarrow> [] | Some lv \<Rightarrow> alert_of P ok u (s, lv))"
    using con' by blast
  show ?thesis
    by (rule exI[of _ "evs @ [Sleep 300]"]) (intro conjI j' wf'' ent' con'')
qed

lemma demo_bot_wf: "wf_registry (user_levels demo_bot)"
  by (simp add: demo_bot_def wf_registry_def wf_levels_def level_sym_def level_eth_def)

lemma demo_bot_sym: "entry_of (user_levels demo_bot) 7 ''SYM'' = Some level_sym"
  by (simp add: demo_bot_def entry_of_def levels_of_def)

lemma demo_bot_eth: "entry_of (user_levels demo_bot) 7 ''ETH'' = Some level_eth"
  by (simp add: demo_bot_def entry_of_def levels_of_def)

section \<open>The loop under any interference\<close>

lemma sleep_journal [simp]: "journal (sleep t ms b) = journal b @ [Sleep t]"
  by (simp add: sleep_def Let_def)

lemma monitor_round_any:
  "\<exists>evs. journal (monitor_round env b) = journal b @ evs \<and> length (filter is_sleep evs) = 1"
proof -
  from check_all_levels_any[of "tick env" b] obtain evs where
    j: "journal (snd (check_all_levels (tick env) b)) = journal b @ evs"
    and ns: "\<forall>e \<in> set evs. \<not> is_sleep e"
    by blast
  from ns have f: "filter is_sleep evs = []" by (simp add: filter_empty_conv)
  show ?thesis
  proof (cases "check_all_levels (tick env) b")
    case (Pair res b')
    with j have j': "journal b' = journal b @ evs" by simp
    show ?thesis
    proof (cases res)
      case (Ok x)
      with Pair j' f show ?thesis
        by (intro exI[of _ "evs @ [Sleep 300]"]) (simp add: monitor_round_def)
    next
      case (Raise e)
      with Pair j' f show ?thesis
        by (intro exI[of _ "evs @ [LoopError e, Sleep 60]"]) (simp add: monitor_round_def)
    qed
  qed
qed

lemma monitor_rounds_any:
  "\<exists>evs. journal (monitor_rounds envs b) = journal b @ evs
     \<and> length (filter is_sleep evs) = length envs"
proof (induction envs arbitrary: b)
  case Nil
  then show ?case by simp
next
  case (Cons env envs)
  from monitor_round_any[of env b] obtain evs where
    1: "journal (monitor_round env b) = journal b @ evs" "length (filter is_sleep evs) = 1"
    by blast
  from Cons.IH[of "monitor_round env b"] obtain evs' where
    2: "journal (monitor_rounds envs (monitor_round env b)) = journal (monitor_round env b) @ evs'"
      "length (filter is_sleep evs') = length envs"
    by blast
  from 1 2 show ?case
    by (intro exI[of _ "evs @ evs'"]) simp
qed

lemma race_tick_run:
  "check_all_levels race_tick demo_bot =
     (Raise KeyError,
      \<lparr>user_levels = [(7, [(''ETH'', level_eth)])], monitoring = True,
       journal = [Started, Notify 7 level_sym (Finite 95) Sent]\<rparr>)"
  by (simp add: check_all_levels_def race_tick_def demo_bot_def demo_prices_def delivered_def
      levels_of_def interfere_def pop_level_def send_target_hit_alert_def is_zero_def
      del_level_def level_sym_def level_eth_def)

section \<open>Facts about the handlers\<close>

lemma upper_char_idem: "upper_char (upper_char c) = upper_char c"
  by (simp add: upper_char_def)

lemma upper_idem: "upper (upper s) = upper s"
  by (simp add: upper_def upper_char_idem)

lemma case_variant_upper: "case_variant s t \<Longrightarrow> upper s = upper t"
  unfolding case_variant_def upper_def
  by (induction rule: list_all2_induct) simp_all

lemma entry_of_ensure_user: "entry_of (ensure_user u r) v s = entry_of r v s"
  by (simp add: entry_of_def levels_of_ensure_user)

lemma entry_of_set_level:
  "entry_of (set_level u lv r) v s =
     (if v = u \<and> s = symbol lv then Some lv else entry_of r v s)"
  by (simp add: entry_of_def levels_of_set_level update_conv')

lemma map_of_ensure_user: "map_of (ensure_user u r) u \<noteq> None"
  by (simp add: ensure_user_def update_conv')

lemma map_of_set_level: "map_of (set_level u lv r) u \<noteq> None"
  by (simp add: set_level_def update_conv')

text \<open>\<open>/add\<close> with two arguments, case by case.\<close>

lemma add_invalid_price:
  "float_of env pr = None \<Longrightarrow>
   add_level_command env uid [a, pr] b =
     ([InvalidPrice], b\<lparr>user_levels := ensure_user uid (user_levels b)\<rparr>)"
  by (simp add: add_level_command_def)

lemma add_invalid_symbol:
  "float_of env pr = Some x \<Longrightarrow> get_binance_price env (upper a) = None \<Longrightarrow>
   add_level_command env uid [a, pr] b =
     ([InvalidSymbol (upper a)], b\<lparr>user_levels := ensure_user uid (user_levels b)\<rparr>)"
  by (simp add: add_level_command_def)

lemma add_accepted:
  assumes "float_of env pr = Some x" and "get_binance_price env (upper a) = Some cur"
  shows "\<exists>replies b'. add_level_command env uid [a, pr] b = (replies, b')
     \<and> user_levels b' =
         set_level uid \<lparr>symbol = upper a, target_price = x, created_at = now env\<rparr>
           (ensure_user uid (user_levels b))
     \<and> monitoring b' = monitoring b
     \<and> (\<exists>final. replies = (if fge x cur then [Warning x cur] else []) @ [final]
           \<and> final = (case entry_of (user_levels b) uid (upper a) of
                        Some old \<Rightarrow> LevelUpdated (upper a) (target_price old) x cur
                      | None \<Rightarrow> if is_zero cur then ErrorOccurred else LevelAdded (upper a) x cur))"
  using assms
  by (cases "entry_of (user_levels b) uid (upper a)")
     (simp_all add: add_level_command_def Let_def entry_of_ensure_user)

lemma wf_add_level_command:
  "wf_registry (user_levels b) \<Longrightarrow> wf_registry (user_levels (snd (add_level_command env uid args b)))"
  by (auto simp: add_level_command_def Let_def wf_ensure_user wf_set_level
      split: option.splits)

lemma wf_remove_level_command:
  "wf_registry (user_levels b) \<Longrightarrow> wf_registry (user_levels (snd (remove_level_command uid args b)))"
  by (auto simp: remove_level_command_def Let_def wf_pop_level split: option.splits)

lemma wf_button_callback:
  "wf_registry (user_levels b) \<Longrightarrow> wf_registry (user_levels (snd (button_callback uid data b)))"
  by (auto simp: button_callback_def Let_def wf_pop_level split: option.splits)

lemma wf_start_command:
  "wf_registry (user_levels b) \<Longrightarrow> wf_registry (user_levels (snd (start_command uid b)))"
  by (simp add: start_command_def wf_ensure_user)

lemma count_key_distinct:
  "distinct (map fst d) \<Longrightarrow> map_of d k = Some v \<Longrightarrow> length (filter (\<lambda>e. fst e = k) d) = 1"
proof (induction d)
  case Nil
  then show ?case by simp
next
  case (Cons e d)
  show ?case
  proof (cases "fst e = k")
    case True
    with Cons.prems have "k \<notin> fst ` set d" by auto
    then have "filter (\<lambda>e. fst e = k) d = []" by (auto simp: filter_empty_conv)
    with True show ?thesis by simp
  next
    case False
    with Cons show ?thesis by (cases e) auto
  qed
qed

section \<open>Histories of writes\<close>

text \<open>Every registry the bot reaches is a replay of writes.\<close>

lemma replay_append: "replay (rev ms @ h) = fold mutate ms (replay h)"
  by (induction ms arbitrary: h) simp_all

lemma pop_level_absent: "entry_of r u s = None \<Longrightarrow> pop_level u s r = r"
  by (auto simp: pop_level_def entry_of_def levels_of_def split: option.splits)

lemma start_command_writes:
  "user_levels (snd (start_command uid b)) = fold mutate [Ensure uid] (user_levels b)"
  by (simp add: start_command_def)

lemma add_level_command_writes:
  "\<exists>ms. user_levels (snd (add_level_command env uid args b)) = fold mutate ms (user_levels b)"
proof -
  let ?r = "user_levels b"
  have 1: "ensure_user uid ?r = fold mutate [Ensure uid] ?r" by simp
  have 2: "set_level uid lv (ensure_user uid ?r) = fold mutate [Store uid lv] ?r" for lv by simp
  have "user_levels (snd (add_level_command env uid args b)) = ensure_user uid ?r
      \<or> (\<exists>lv. user_levels (snd (add_level_command env uid args b)) = set_level uid lv (ensure_user uid ?r))"
    by (auto simp: add_level_command_def Let_def split: option.splits)
  with 1 2 show ?thesis by metis
qed

lemma remove_level_command_writes:
  "\<exists>ms. user_levels (snd (remove_level_command uid args b)) = fold mutate ms (user_levels b)"
proof -
  let ?r = "user_levels b"
  have 1: "?r = fold mutate [] ?r" by simp
  have 2: "pop_level uid s ?r = fold mutate [Pop uid s] ?r" for s by simp
  have "user_levels (snd (remove_level_command uid args b)) = ?r
      \<or> (\<exists>s. user_levels (snd (remove_level_command uid args b)) = pop_level uid s ?r)"
    by (auto simp: remove_level_command_def Let_def split: option.splits)
  with 1 2 show ?thesis by metis
qed

lemma button_callback_writes:
  "\<exists>ms. user_levels (snd (button_callback uid data b)) = fold mutate ms (user_levels b)"
proof -
  let ?r = "user_levels b"
  have 1: "?r = fold mutate [] ?r" by simp
  have 2: "pop_level uid s ?r = fold mutate [Pop uid s] ?r" for s by simp
  have "user_levels (snd (button_callback uid data b)) = ?r
      \<or> (\<exists>s. user_levels (snd (button_callback uid data b)) = pop_level uid s ?r)"
    by (auto simp: button_callback_def Let_def split: option.splits)
  with 1 2 show ?thesis by metis
qed

lemma earlier_iff:
  "earlier h u s t = (\<exists>i j. born h u s = Some i \<and> born h u t = Some j \<and> i < j)"
  by (auto simp: earlier_def split: option.splits)

lemma earlier_cong: "(\<And>s. born h' u s = born h u s) \<Longrightarrow> earlier h' u = earlier h u"
  by (simp add: earlier_iff fun_eq_iff)

lemma sorted_wrt_same:
  "sorted_wrt P xs \<Longrightarrow> (\<And>x y. x \<in> set xs \<Longrightarrow> y \<in> set xs \<Longrightarrow> P x y \<Longrightarrow> Q x y) \<Longrightarrow> sorted_wrt Q xs"
  by (rule sorted_wrt_mono_rel[of xs P Q]) auto

lemma levels_of_mutate:
  "levels_of (mutate m r) u =
     (case m of
        Ensure v \<Rightarrow> levels_of r u
      | Store v lv \<Rightarrow> if u = v then AList.update (symbol lv) lv (levels_of r u) else levels_of r u
      | Pop v k \<Rightarrow> if u = v then AList.delete k (levels_of r u) else levels_of r u)"
  by (cases m) (simp_all add: levels_of_ensure_user levels_of_set_level levels_of_pop_level)

lemma in_order_step:
  assumes "in_order h u"
  shows "in_order (m # h) u"
proof -
  let ?keys = "map fst (levels_of (replay h) u)"
  from assms have dist: "distinct ?keys"
    and dom: "\<And>s. (s \<in> set ?keys) = (born h u s \<noteq> None)"
    and bound: "\<And>s i. born h u s = Some i \<Longrightarrow> i < length h"
    and sorted: "sorted_wrt (earlier h u) ?keys"
    by (simp_all add: in_order_def Let_def)
  show ?thesis
  proof (cases m)
    case (Ensure v)
    then have "earlier (m # h) u = earlier h u"
      by (intro earlier_cong) simp
    with Ensure assms show ?thesis
      by (auto simp: in_order_def Let_def levels_of_ensure_user less_Suc_eq dest: bound)
  next
    case (Pop v k)
    show ?thesis
    proof (cases "u = v")
      case False
      with Pop have "earlier (m # h) u = earlier h u"
        by (intro earlier_cong) simp
      with Pop False assms show ?thesis
        by (auto simp: in_order_def Let_def levels_of_pop_level less_Suc_eq dest: bound)
    next
      case True
      let ?keys' = "map fst (levels_of (replay (m # h)) u)"
      have keys': "?keys' = filter (\<lambda>x. x \<noteq> k) ?keys"
        using Pop True by (simp add: levels_of_pop_level delete_keys removeAll_filter_not_eq)
           (metis (mono_tags, lifting) filter_cong)
      have b': "born (m # h) u s = (if s = k then None else born h u s)" for s
        using Pop True by auto
      have 1: "distinct ?keys'" unfolding keys' using dist by simp
      have 2: "\<forall>s. (s \<in> set ?keys') = (born (m # h) u s \<noteq> None)"
        unfolding keys' b' using dom by auto
      have 3: "\<forall>s i. born (m # h) u s = Some i \<longrightarrow> i < length (m # h)"
        unfolding b' using bound by (auto simp: less_Suc_eq split: if_splits)
      have "sorted_wrt (earlier h u) (filter (\<lambda>x. x \<noteq> k) ?keys)"
        using sorted by (rule sorted_wrt_filter)
      then have 4: "sorted_wrt (earlier (m # h) u) ?keys'"
        unfolding keys'
        by (rule sorted_wrt_same) (auto simp: earlier_iff b')
      from 1 2 3 4 show ?thesis by (simp add: in_order_def Let_def del: replay.simps born.simps)
    qed
  next
    case (Store v lv)
    show ?thesis
    proof (cases "u = v")
      case False
      with Store have "earlier (m # h) u = earlier h u"
        by (intro earlier_cong) simp
      with Store False assms show ?thesis
        by (auto simp: in_order_def Let_def levels_of_set_level levels_of_ensure_user less_Suc_eq
            dest: bound)
    next
      case True
      let ?k = "symbol lv"
      let ?keys' = "map fst (levels_of (replay (m # h)) u)"
      have keys': "?keys' = (if ?k \<in> set ?keys then ?keys else ?keys @ [?k])"
        using Store True by (simp add: levels_of_set_level levels_of_ensure_user update_keys)
      have b': "born (m # h) u s =
          (if s = ?k then (case born h u ?k of None \<Rightarrow> Some (length h) | Some i \<Rightarrow> Some i)
           else born h u s)" for s
        using Store True by auto
      show ?thesis
      proof (cases "?k \<in> set ?keys")
        case present: True
        then obtain i where i: "born h u ?k = Some i" using dom[of ?k] by auto
        have same: "born (m # h) u s = born h u s" for s
          unfolding b' using i by simp
        then have "earlier (m # h) u = earlier h u"
          by (intro earlier_cong)
        with present keys' same dist dom bound sorted show ?thesis
          by (auto simp: in_order_def Let_def less_Suc_eq simp del: replay.simps born.simps)
      next
        case absent: False
        then have none: "born h u ?k = None" using dom[of ?k] by auto
        have new: "born (m # h) u ?k = Some (length h)"
          unfolding b' using none by simp
        have old: "s \<noteq> ?k \<Longrightarrow> born (m # h) u s = born h u s" for s
          unfolding b' by simp
        have k': "?keys' = ?keys @ [?k]" using keys' absent by simp
        have 1: "distinct ?keys'" unfolding k' using dist absent by simp
        have 2: "\<forall>s. (s \<in> set ?keys') = (born (m # h) u s \<noteq> None)"
          unfolding k' b' using dom none by auto
        have 3: "\<forall>s i. born (m # h) u s = Some i \<longrightarrow> i < length (m # h)"
          unfolding b' using bound none by (auto simp: less_Suc_eq split: if_splits)
        have a: "sorted_wrt (earlier (m # h) u) ?keys"
          using sorted
        proof (rule sorted_wrt_same)
          fix x y assume xy: "x \<in> set ?keys" "y \<in> set ?keys" and e: "earlier h u x y"
          from xy absent have "x \<noteq> ?k" "y \<noteq> ?k" by blast+
          with old[of x] old[of y] e show "earlier (m # h) u x y"
            by (simp add: earlier_iff del: born.simps)
        qed
        have b: "\<forall>x \<in> set ?keys. earlier (m # h) u x ?k"
        proof
          fix x assume x: "x \<in> set ?keys"
          with dom[of x] obtain i where i: "born h u x = Some i" by auto
          with bound have "i < length h" by blast
          moreover from x absent have "x \<noteq> ?k" by blast
          ultimately show "earlier (m # h) u x ?k"
            using i new old[of x] by (simp add: earlier_iff del: born.simps)
        qed
        have 4: "sorted_wrt (earlier (m # h) u) ?keys'"
          unfolding k' using a b by (simp add: sorted_wrt_append)
        from 1 2 3 4 show ?thesis by (simp add: in_order_def Let_def del: replay.simps born.simps)
      qed
    qed
  qed
qed

lemma in_order_replay: "in_order h u"
proof (induction h)
  case Nil
  show ?case by (simp add: in_order_def levels_of_def)
next
  case (Cons m h)
  then show ?case by (rule in_order_step)
qed

lemma monitor_round_writes:
  "\<exists>ms. user_levels (monitor_round env b) = fold mutate ms (user_levels b)"
proof -
  from check_all_levels_any[of "tick env" b] obtain ms where
    ms: "user_levels (snd (check_all_levels (tick env) b)) = fold mutate ms (user_levels b)"
    by blast
  have "user_levels (monitor_round env b) = fold mutate (ms @ during_sleep env) (user_levels b)"
  proof (cases "check_all_levels (tick env) b")
    case (Pair res b')
    with ms show ?thesis
      by (cases res) (simp_all add: monitor_round_def sleep_def Let_def)
  qed
  then show ?thesis by blast
qed

lemma monitor_rounds_writes:
  "\<exists>ms. user_levels (monitor_rounds envs b) = fold mutate ms (user_levels b)"
proof (induction envs arbitrary: b)
  case Nil
  have "user_levels b = fold mutate [] (user_levels b)" by simp
  then show ?case by (simp only: monitor_rounds.simps) blast
next
  case (Cons env envs)
  from monitor_round_writes[of env b] obtain ms where
    1: "user_levels (monitor_round env b) = fold mutate ms (user_levels b)" by blast
  from Cons.IH[of "monitor_round env b"] obtain ms' where
    2: "user_levels (monitor_rounds envs (monitor_round env b)) =
          fold mutate ms' (user_levels (monitor_round env b))" by blast
  from 1 2 have "user_levels (monitor_rounds (env # envs) b) = fold mutate (ms @ ms') (user_levels b)"
    by simp
  then show ?case by blast
qed

lemma price_monitoring_loop_writes:
  "\<exists>ms. user_levels (price_monitoring_loop envs b) = fold mutate ms (user_levels b)"
  using monitor_rounds_writes[of envs "b\<lparr>monitoring := True, journal := journal b @ [Started]\<rparr>"]
  by (simp add: price_monitoring_loop_def)

lemma replay_writes:
  assumes "r = replay h" and "r' = fold mutate ms r"
  shows "\<exists>h'. r' = replay h'"
  using assms replay_append[of ms h] by metis

lemma reachable_replay: "reachable b \<Longrightarrow> \<exists>h. user_levels b = replay h"
proof (induction rule: reachable.induct)
  case created
  have "user_levels \<lparr>user_levels = [], monitoring = False, journal = []\<rparr> = replay []" by simp
  then show ?case by blast
next
  case (started b uid)
  then obtain h where "user_levels b = replay h" by blast
  from replay_writes[OF this start_command_writes] show ?case .
next
  case (added b env uid args)
  then obtain h where h: "user_levels b = replay h" by blast
  from add_level_command_writes[of env uid args b] obtain ms where
    "user_levels (snd (add_level_command env uid args b)) = fold mutate ms (user_levels b)" by blast
  from replay_writes[OF h this] show ?case .
next
  case (removed b uid args)
  then obtain h where h: "user_levels b = replay h" by blast
  from remove_level_command_writes[of uid args b] obtain ms where
    "user_levels (snd (remove_level_command uid args b)) = fold mutate ms (user_levels b)" by blast
  from replay_writes[OF h this] show ?case .
next
  case (pressed b uid data)
  then obtain h where h: "user_levels b = replay h" by blast
  from button_callback_writes[of uid data b] obtain ms where
    "user_levels (snd (button_callback uid data b)) = fold mutate ms (user_levels b)" by blast
  from replay_writes[OF h this] show ?case .
next
  case (monitored b envs)
  then obtain h where h: "user_levels b = replay h" by blast
  from price_monitoring_loop_writes[of envs b] obtain ms where
    "user_levels (price_monitoring_loop envs b) = fold mutate ms (user_levels b)" by blast
  from replay_writes[OF h this] show ?case .
qed

lemma reachable_wf: "reachable b \<Longrightarrow> wf_registry (user_levels b)"
  using reachable_replay[of b] wf_replay by auto

section \<open>One item of a tick's copy, under any interference\<close>

lemma send_alert_outcome:
  "journal (send_target_hit_alert env u lv p b) =
     journal b @ [Notify u lv p (alert_outcome (send_message_ok env) u lv p)]"
  by (simp add: send_target_hit_alert_def alert_outcome_def Let_def)

lemma del_level_failed: "del_level u s r = Inl e \<Longrightarrow> entry_of r u s = None"
  using del_level_Inl_iff[of u s r] by blast

text \<open>The body of the inner loop for one item of the copy.\<close>

lemma scan_step_triggered:
  assumes "price_of env u s = Some p" and "fle p (target_price lv)"
  shows "journal (snd (scan_levels env u [(s, lv)] n b)) =
           journal b @ [Notify u lv p (alert_outcome (send_message_ok env) u lv p)]"
    and "entry_of (user_levels (snd (scan_levels env u [(s, lv)] n b))) u s = None"
proof -
  let ?b2 = "send_target_hit_alert env u lv p (interfere (during_lookup env u s) b)"
  have j: "journal ?b2 = journal b @ [Notify u lv p (alert_outcome (send_message_ok env) u lv p)]"
    by (simp add: send_alert_outcome)
  show "journal (snd (scan_levels env u [(s, lv)] n b)) =
           journal b @ [Notify u lv p (alert_outcome (send_message_ok env) u lv p)]"
    using assms j by (cases "del_level u s (user_levels ?b2)") (simp_all add: Let_def)
  show "entry_of (user_levels (snd (scan_levels env u [(s, lv)] n b))) u s = None"
  proof (cases "del_level u s (user_levels ?b2)")
    case (Inl e)
    with assms del_level_failed[OF Inl] show ?thesis by (simp add: Let_def)
  next
    case (Inr r)
    from del_level_Inr[OF Inr] have "entry_of r u s = None" by (simp add: entry_of_pop_level)
    with assms Inr show ?thesis by (simp add: Let_def)
  qed
qed

lemma scan_step_untriggered:
  assumes "price_of env u s = Some p" and "\<not> fle p (target_price lv)"
  shows "scan_levels env u [(s, lv)] n b = (Ok (Suc n), interfere (during_lookup env u s) b)"
  using assms by (simp add: Let_def)

lemma scan_step_unavailable:
  assumes "price_of env u s = None"
  shows "scan_levels env u [(s, lv)] n b = (Ok n, interfere (during_lookup env u s) b)"
  using assms by (simp add: Let_def)

lemma scan_levels_Cons:
  "scan_levels env u (x # rest) n b =
     (case scan_levels env u [x] n b of
        (Ok n', b') \<Rightarrow> scan_levels env u rest n' b'
      | (Raise e, b') \<Rightarrow> (Raise e, b'))"
  by (cases x) (auto simp: Let_def split: option.splits sum.splits)

section \<open>At most one alert for a level\<close>

declare scan_levels.simps [simp del]

lemma mutate_keeps_unstored:
  "m \<noteq> Store u lv \<Longrightarrow> \<not> stored r u lv \<Longrightarrow> \<not> stored (mutate m r) u lv"
  by (cases m) (auto simp: stored_def entry_of_ensure_user entry_of_set_level entry_of_pop_level)

lemma fold_mutate_keeps_unstored:
  "Store u lv \<notin> set ms \<Longrightarrow> \<not> stored r u lv \<Longrightarrow> \<not> stored (fold mutate ms r) u lv"
proof (induction ms arbitrary: r)
  case Nil
  then show ?case by (simp add: scan_levels.simps)
next
  case (Cons m ms)
  from Cons.prems have "m \<noteq> Store u lv" by auto
  from mutate_keeps_unstored[OF this Cons.prems(2)] have "\<not> stored (mutate m r) u lv" .
  with Cons show ?case by simp
qed

lemma pop_level_keeps_unstored: "\<not> stored r u lv \<Longrightarrow> \<not> stored (pop_level v k r) u lv"
  by (auto simp: stored_def entry_of_pop_level)

lemma send_alert_keeps_unstored:
  assumes "tick_never_stores u lv env" and "\<not> stored (user_levels b) u lv"
  shows "\<not> stored (user_levels (send_target_hit_alert env v lv' p b)) u lv"
proof (cases "is_zero (target_price lv')")
  case True
  with assms(2) show ?thesis by (simp add: send_target_hit_alert_def)
next
  case False
  from assms(1) have "Store u lv \<notin> set (during_send env v (symbol lv'))"
    by (simp add: tick_never_stores_def)
  from fold_mutate_keeps_unstored[OF this assms(2)] False show ?thesis
    by (simp add: send_target_hit_alert_def Let_def)
qed

text \<open>One item of the copy of user \<open>v\<close>: its effect on the calls for a level and on its being stored.\<close>

lemma step_keeps_unstored:
  assumes "tick_never_stores u lv env" and "\<not> stored (user_levels b) u lv"
  shows "\<not> stored (user_levels (snd (scan_levels env v [(k, lv')] n b))) u lv"
proof -
  let ?b1 = "interfere (during_lookup env v k) b"
  from assms(1) have "Store u lv \<notin> set (during_lookup env v k)"
    by (simp add: tick_never_stores_def)
  from fold_mutate_keeps_unstored[OF this assms(2)]
  have 1: "\<not> stored (user_levels ?b1) u lv" by simp
  show ?thesis
  proof (cases "price_of env v k")
    case None
    with 1 show ?thesis by (simp add: scan_step_unavailable)
  next
    case (Some p)
    show ?thesis
    proof (cases "fle p (target_price lv')")
      case False
      with Some 1 show ?thesis by (simp add: scan_step_untriggered)
    next
      case True
      let ?b2 = "send_target_hit_alert env v lv' p ?b1"
      from send_alert_keeps_unstored[OF assms(1) 1]
      have 2: "\<not> stored (user_levels ?b2) u lv" .
      show ?thesis
      proof (cases "del_level v k (user_levels ?b2)")
        case (Inl e)
        with Some True 2 show ?thesis by (simp add: scan_levels.simps Let_def)
      next
        case (Inr r)
        from del_level_Inr[OF Inr] 2 have "\<not> stored r u lv"
          by (simp add: pop_level_keeps_unstored)
        with Some True Inr show ?thesis by (simp add: scan_levels.simps Let_def)
      qed
    qed
  qed
qed

lemma step_alerts:
  "alerts_for u lv (snd (scan_levels env v [(k, lv')] n b)) =
     alerts_for u lv b +
       (if v = u \<and> lv' = lv \<and> (\<exists>p. price_of env v k = Some p \<and> fle p (target_price lv'))
        then 1 else 0)"
proof (cases "price_of env v k")
  case None
  then show ?thesis by (simp add: scan_step_unavailable alerts_for_def)
next
  case (Some p)
  show ?thesis
  proof (cases "fle p (target_price lv')")
    case False
    with Some show ?thesis by (simp add: scan_step_untriggered alerts_for_def)
  next
    case True
    from scan_step_triggered(1)[OF Some True, of n b] Some True show ?thesis
      by (simp add: alerts_for_def)
  qed
qed

lemma step_alerted_unstored:
  assumes "alerts_for u lv (snd (scan_levels env u [(symbol lv, lv)] n b)) = alerts_for u lv b + 1"
  shows "\<not> stored (user_levels (snd (scan_levels env u [(symbol lv, lv)] n b))) u lv"
proof -
  from assms obtain p where p: "price_of env u (symbol lv) = Some p" "fle p (target_price lv)"
    by (auto simp: step_alerts split: if_splits)
  from scan_step_triggered(2)[OF p, of n b] show ?thesis by (simp add: stored_def)
qed

text \<open>The inner loop.\<close>

lemma scan_levels_Cons_Ok:
  "scan_levels env u [x] n b = (Ok n', b') \<Longrightarrow>
     scan_levels env u (x # rest) n b = scan_levels env u rest n' b'"
  by (subst scan_levels_Cons) simp

lemma scan_levels_Cons_Raise:
  "scan_levels env u [x] n b = (Raise e, b') \<Longrightarrow>
     scan_levels env u (x # rest) n b = (Raise e, b')"
  by (subst scan_levels_Cons) simp

lemma scan_levels_other_alerts:
  assumes "v \<noteq> u \<or> lv \<notin> snd ` set items"
  shows "alerts_for u lv (snd (scan_levels env v items n b)) = alerts_for u lv b"
  using assms
proof (induction items arbitrary: n b)
  case Nil
  then show ?case by (simp add: scan_levels.simps)
next
  case (Cons x items)
  obtain k lv' where x: "x = (k, lv')" by (cases x)
  from Cons.prems have here: "v \<noteq> u \<or> lv' \<noteq> lv" and rest: "v \<noteq> u \<or> lv \<notin> snd ` set items"
    by (auto simp: x)
  from here have s: "alerts_for u lv (snd (scan_levels env v [(k, lv')] n b)) = alerts_for u lv b"
    by (auto simp: step_alerts)
  show ?case
  proof (cases "scan_levels env v [(k, lv')] n b")
    case (Pair res b1)
    with s have s1: "alerts_for u lv b1 = alerts_for u lv b" by simp
    show ?thesis
    proof (cases res)
      case (Raise e)
      from Pair have "scan_levels env v (x # items) n b = (Raise e, b1)"
        unfolding Raise x by (rule scan_levels_Cons_Raise)
      with s1 show ?thesis by simp
    next
      case (Ok n1)
      from Pair have "scan_levels env v (x # items) n b = scan_levels env v items n1 b1"
        unfolding Ok x by (rule scan_levels_Cons_Ok)
      with s1 Cons.IH[OF rest, of n1 b1] show ?thesis by simp
    qed
  qed
qed

lemma scan_levels_keeps_unstored:
  assumes "tick_never_stores u lv env" and "\<not> stored (user_levels b) u lv"
  shows "\<not> stored (user_levels (snd (scan_levels env v items n b))) u lv"
  using assms(2)
proof (induction items arbitrary: n b)
  case Nil
  then show ?case by (simp add: scan_levels.simps)
next
  case (Cons x items)
  obtain k lv' where x: "x = (k, lv')" by (cases x)
  from step_keeps_unstored[OF assms(1) Cons.prems, of v k lv' n]
  have s: "\<not> stored (user_levels (snd (scan_levels env v [(k, lv')] n b))) u lv" .
  show ?case
  proof (cases "scan_levels env v [(k, lv')] n b")
    case (Pair res b1)
    with s have s1: "\<not> stored (user_levels b1) u lv" by simp
    show ?thesis
    proof (cases res)
      case (Raise e)
      from Pair have "scan_levels env v (x # items) n b = (Raise e, b1)"
        unfolding Raise x by (rule scan_levels_Cons_Raise)
      with s1 show ?thesis by simp
    next
      case (Ok n1)
      from Pair have "scan_levels env v (x # items) n b = scan_levels env v items n1 b1"
        unfolding Ok x by (rule scan_levels_Cons_Ok)
      with Cons.IH[OF s1, of n1] show ?thesis by simp
    qed
  qed
qed

lemma scan_levels_alerts:
  assumes "wf_levels items"
  shows "alerts_for u lv (snd (scan_levels env u items n b)) \<le> alerts_for u lv b + 1
     \<and> (tick_never_stores u lv env \<longrightarrow>
          alerts_for u lv (snd (scan_levels env u items n b)) = alerts_for u lv b + 1 \<longrightarrow>
          \<not> stored (user_levels (snd (scan_levels env u items n b))) u lv)"
  using assms
proof (induction items arbitrary: n b)
  case Nil
  then show ?case by (simp add: scan_levels.simps)
next
  case (Cons x items)
  obtain k lv' where x: "x = (k, lv')" by (cases x)
  from Cons.prems have wf: "wf_levels items" and key: "symbol lv' = k" and fresh: "k \<notin> fst ` set items"
    by (auto simp: wf_levels_def x)
  let ?step = "scan_levels env u [(k, lv')] n b"
  obtain res b1 where step: "?step = (res, b1)" by (cases ?step)
  show ?case
  proof (cases "lv' = lv")
    case True
    have "lv \<notin> snd ` set items"
    proof
      assume "lv \<in> snd ` set items"
      then obtain k2 where k2: "(k2, lv) \<in> set items" by auto
      with wf have "symbol lv = k2" by (auto simp: wf_levels_def)
      with key True k2 fresh show False by force
    qed
    then have rest: "alerts_for u lv (snd (scan_levels env u items n' b')) = alerts_for u lv b'" for n' b'
      by (simp add: scan_levels_other_alerts)
    have le: "alerts_for u lv b1 \<le> alerts_for u lv b + 1"
      using step_alerts[of u lv env u k lv' n b] step by simp
    have un: "alerts_for u lv b1 = alerts_for u lv b + 1 \<Longrightarrow> \<not> stored (user_levels b1) u lv"
      using step_alerted_unstored[of u lv env n b] step True key by simp
    show ?thesis
    proof (cases res)
      case (Raise e)
      from step have "scan_levels env u (x # items) n b = (Raise e, b1)"
        unfolding Raise x by (rule scan_levels_Cons_Raise)
      with le un show ?thesis by simp
    next
      case (Ok n1)
      from step have run: "scan_levels env u (x # items) n b = scan_levels env u items n1 b1"
        unfolding Ok x by (rule scan_levels_Cons_Ok)
      show ?thesis
        unfolding run using rest[of n1 b1] le un scan_levels_keeps_unstored[of u lv env b1 u items n1]
        by auto
    qed
  next
    case False
    then have same: "alerts_for u lv b1 = alerts_for u lv b"
      using step_alerts[of u lv env u k lv' n b] step by simp
    show ?thesis
    proof (cases res)
      case (Raise e)
      from step have "scan_levels env u (x # items) n b = (Raise e, b1)"
        unfolding Raise x by (rule scan_levels_Cons_Raise)
      with same show ?thesis by simp
    next
      case (Ok n1)
      from step have run: "scan_levels env u (x # items) n b = scan_levels env u items n1 b1"
        unfolding Ok x by (rule scan_levels_Cons_Ok)
      show ?thesis
        unfolding run using Cons.IH[OF wf, of n1 b1] same by simp
    qed
  qed
qed

lemma at_most_once_refl: "at_most_once u lv b b"
  by (simp add: at_most_once_def)

lemma at_most_once_trans:
  "at_most_once u lv b b1 \<Longrightarrow> at_most_once u lv b1 b2 \<Longrightarrow> at_most_once u lv b b2"
  unfolding at_most_once_def by (cases "alerts_for u lv b1 = alerts_for u lv b") auto

lemma at_most_once_same:
  assumes "alerts_for u lv b' = alerts_for u lv b"
    and "\<not> stored (user_levels b) u lv \<Longrightarrow> \<not> stored (user_levels b') u lv"
  shows "at_most_once u lv b b'"
  using assms by (auto simp: at_most_once_def)

lemma unstored_not_listed:
  assumes "wf_registry r" and "\<not> stored r u lv"
  shows "lv \<notin> snd ` set (levels_of r u)"
proof
  assume "lv \<in> snd ` set (levels_of r u)"
  then obtain k where k: "(k, lv) \<in> set (levels_of r u)" by auto
  from wf_registry_levels_of[OF assms(1), of u] have wf: "wf_levels (levels_of r u)" .
  with k have "symbol lv = k" by (auto simp: wf_levels_def)
  moreover from wf k have "map_of (levels_of r u) k = Some lv"
    by (simp add: wf_levels_def)
  ultimately show False using assms(2) by (simp add: stored_def entry_of_def)
qed

lemma scan_levels_mono:
  "alerts_for u lv b \<le> alerts_for u lv (snd (scan_levels env v items n b))"
  using scan_levels_any[of env v items n b] by (auto simp: alerts_for_def)

lemma scan_levels_once:
  assumes "tick_never_stores u lv env" and "wf_registry (user_levels b)"
  shows "at_most_once u lv b (snd (scan_levels env v (levels_of (user_levels b) v) n b))"
proof (cases "v = u")
  case False
  then show ?thesis
    using scan_levels_other_alerts[of v u lv "levels_of (user_levels b) v" env n b]
      scan_levels_keeps_unstored[OF assms(1), of b v "levels_of (user_levels b) v" n]
    by (intro at_most_once_same) auto
next
  case True
  let ?b' = "snd (scan_levels env u (levels_of (user_levels b) u) n b)"
  from wf_registry_levels_of[OF assms(2), of u] have wf: "wf_levels (levels_of (user_levels b) u)" .
  from scan_levels_alerts[OF wf, of u lv env n b] assms(1)
  have 1: "alerts_for u lv ?b' \<le> alerts_for u lv b + 1"
    and 2: "alerts_for u lv ?b' = alerts_for u lv b + 1 \<longrightarrow> \<not> stored (user_levels ?b') u lv"
    by blast+
  have 3: "alerts_for u lv ?b' = alerts_for u lv b \<and> \<not> stored (user_levels ?b') u lv"
    if un: "\<not> stored (user_levels b) u lv"
  proof -
    from unstored_not_listed[OF assms(2) un] have "lv \<notin> snd ` set (levels_of (user_levels b) u)" .
    then have "alerts_for u lv ?b' = alerts_for u lv b"
      by (simp add: scan_levels_other_alerts)
    moreover from scan_levels_keeps_unstored[OF assms(1) un]
    have "\<not> stored (user_levels ?b') u lv" .
    ultimately show ?thesis by simp
  qed
  from 1 2 3 scan_levels_mono[of u lv b env u "levels_of (user_levels b) u" n] show ?thesis
    unfolding True at_most_once_def by blast
qed

lemma wf_scan_levels:
  "wf_registry (user_levels b) \<Longrightarrow> wf_registry (user_levels (snd (scan_levels env v items n b)))"
  using scan_levels_any[of env v items n b] by (auto simp: wf_fold_mutate)

lemma scan_users_once:
  assumes "tick_never_stores u lv env"
  shows "wf_registry (user_levels b) \<Longrightarrow> at_most_once u lv b (snd (scan_users env size0 us n b))"
proof (induction us arbitrary: n b)
  case Nil
  then show ?case by (simp add: at_most_once_refl)
next
  case (Cons v us)
  show ?case
  proof (cases "length (user_levels b) \<noteq> size0")
    case True
    then show ?thesis by (simp add: at_most_once_refl)
  next
    case False
    let ?inner = "scan_levels env v (levels_of (user_levels b) v) n b"
    from scan_levels_once[OF assms Cons.prems, of v n]
    have inner: "at_most_once u lv b (snd ?inner)" .
    from wf_scan_levels[OF Cons.prems, of env v "levels_of (user_levels b) v" n]
    have wf: "wf_registry (user_levels (snd ?inner))" .
    show ?thesis
    proof (cases ?inner)
      case (Pair res b1)
      show ?thesis
      proof (cases res)
        case (Raise x)
        with Pair False inner show ?thesis by simp
      next
        case (Ok n1)
        with Pair False have run: "scan_users env size0 (v # us) n b = scan_users env size0 us n1 b1"
          by simp
        from wf Pair have "wf_registry (user_levels b1)" by simp
        from Cons.IH[OF this, of n1] inner Pair show ?thesis
          unfolding run by (auto intro: at_most_once_trans)
      qed
    qed
  qed
qed

lemma check_all_levels_once:
  assumes "tick_never_stores u lv env" and "wf_registry (user_levels b)"
  shows "at_most_once u lv b (snd (check_all_levels env b))"
proof -
  let ?scan = "scan_users env (length (user_levels b)) (map fst (user_levels b)) 0 b"
  from scan_users_once[OF assms, of "length (user_levels b)" "map fst (user_levels b)" 0]
  have s: "at_most_once u lv b (snd ?scan)" .
  show ?thesis
  proof (cases ?scan)
    case (Pair res b1)
    with s have s1: "at_most_once u lv b b1" by simp
    show ?thesis
    proof (cases res)
      case (Raise x)
      with Pair s1 show ?thesis by (simp add: check_all_levels_def)
    next
      case (Ok n1)
      have "at_most_once u lv b1 (b1\<lparr>journal := journal b1 @ [Checked n1]\<rparr>)"
        by (intro at_most_once_same) (simp_all add: alerts_for_def)
      from at_most_once_trans[OF s1 this] s1 Ok Pair show ?thesis
        by (simp add: check_all_levels_def)
    qed
  qed
qed

lemma sleep_once:
  assumes "Store u lv \<notin> set ms"
  shows "at_most_once u lv b (sleep t ms b)"
proof (intro at_most_once_same)
  show "alerts_for u lv (sleep t ms b) = alerts_for u lv b"
    by (simp add: alerts_for_def)
  show "\<not> stored (user_levels (sleep t ms b)) u lv" if "\<not> stored (user_levels b) u lv"
    using fold_mutate_keeps_unstored[OF assms that] by (simp add: sleep_def Let_def)
qed

lemma wf_sleep: "wf_registry (user_levels b) \<Longrightarrow> wf_registry (user_levels (sleep t ms b))"
  by (simp add: sleep_def Let_def wf_fold_mutate)

lemma wf_monitor_round:
  assumes "wf_registry (user_levels b)"
  shows "wf_registry (user_levels (monitor_round env b))"
proof (cases "check_all_levels (tick env) b")
  case (Pair res b1)
  with wf_check_all_levels[OF assms, of "tick env"] have "wf_registry (user_levels b1)" by simp
  then show ?thesis
    using Pair by (cases res) (simp_all add: monitor_round_def wf_sleep)
qed

lemma monitor_round_once:
  assumes "never_stores u lv env" and "wf_registry (user_levels b)"
  shows "at_most_once u lv b (monitor_round env b)"
proof -
  from assms(1) have t: "tick_never_stores u lv (tick env)" and s: "Store u lv \<notin> set (during_sleep env)"
    by (simp_all add: never_stores_def)
  from check_all_levels_once[OF t assms(2)]
  have c: "at_most_once u lv b (snd (check_all_levels (tick env) b))" .
  show ?thesis
  proof (cases "check_all_levels (tick env) b")
    case (Pair res b1)
    with c have c1: "at_most_once u lv b b1" by simp
    show ?thesis
    proof (cases res)
      case (Ok x)
      with Pair at_most_once_trans[OF c1 sleep_once[OF s, of b1 300]] show ?thesis
        by (simp add: monitor_round_def)
    next
      case (Raise e)
      have "at_most_once u lv b1 (b1\<lparr>journal := journal b1 @ [LoopError e]\<rparr>)"
        by (intro at_most_once_same) (simp_all add: alerts_for_def)
      from at_most_once_trans[OF at_most_once_trans[OF c1 this] sleep_once[OF s, of _ 60]] Raise Pair
      show ?thesis by (simp add: monitor_round_def)
    qed
  qed
qed

lemma monitor_rounds_once:
  assumes "\<forall>env \<in> set envs. never_stores u lv env" and "wf_registry (user_levels b)"
  shows "at_most_once u lv b (monitor_rounds envs b)"
  using assms
proof (induction envs arbitrary: b)
  case Nil
  then show ?case by (simp add: at_most_once_refl)
next
  case (Cons env envs)
  from Cons.prems have 1: "at_most_once u lv b (monitor_round env b)"
    by (simp add: monitor_round_once)
  from Cons.prems have "wf_registry (user_levels (monitor_round env b))"
    by (simp add: wf_monitor_round)
  with Cons have 2: "at_most_once u lv (monitor_round env b) (monitor_rounds envs (monitor_round env b))"
    by simp
  from at_most_once_trans[OF 1 2] show ?case by simp
qed

lemma price_monitoring_loop_once:
  assumes "\<forall>env \<in> set envs. never_stores u lv env" and "wf_registry (user_levels b)"
  shows "at_most_once u lv b (price_monitoring_loop envs b)"
proof -
  let ?b0 = "b\<lparr>monitoring := True, journal := journal b @ [Started]\<rparr>"
  have 0: "at_most_once u lv b ?b0"
    by (intro at_most_once_same) (simp_all add: alerts_for_def)
  from assms(2) have "wf_registry (user_levels ?b0)" by simp
  from at_most_once_trans[OF 0 monitor_rounds_once[OF assms(1) this]] show ?thesis
    by (simp add: price_monitoring_loop_def)
qed

lemma price_monitoring_loop_journal:
  "\<exists>evs. journal (price_monitoring_loop envs b) = journal b @ evs"
  using monitor_rounds_any[of envs "b\<lparr>monitoring := True, journal := journal b @ [Started]\<rparr>"]
  by (auto simp: price_monitoring_loop_def)

lemma alerts_written:
  assumes "journal b' = journal b @ evs"
  shows "alerts_for u lv b' = alerts_for u lv b + length (filter (calls_for u lv) (written b b'))"
  using assms by (simp add: alerts_for_def written_def)

declare scan_levels.simps [simp]

section \<open>Runs of the loop, and \<open>/list\<close> while nothing is written\<close>

lemma loaded_bot_wf: "wf_registry (user_levels loaded_bot)"
  by (simp add: loaded_bot_def wf_registry_def wf_levels_def level_sym_def level_eth_def)

lemma monitor_rounds_append:
  "monitor_rounds (xs @ ys) b = monitor_rounds ys (monitor_rounds xs b)"
  by (induction xs arbitrary: b) simp_all

lemma price_monitoring_loop_snoc:
  "price_monitoring_loop (pre @ [env]) b = monitor_round env (price_monitoring_loop pre b)"
  by (simp add: price_monitoring_loop_def monitor_rounds_append)

lemma price_monitoring_loop_sleeps:
  "length (filter is_sleep (written b (price_monitoring_loop envs b))) = length envs"
proof -
  from monitor_rounds_any[of envs "b\<lparr>monitoring := True, journal := journal b @ [Started]\<rparr>"]
  obtain evs where
    "journal (price_monitoring_loop envs b) = journal b @ Started # evs"
    "length (filter is_sleep evs) = length envs"
    by (auto simp: price_monitoring_loop_def)
  then show ?thesis by (simp add: written_def)
qed

lemma monitoring_monitor_round: "monitoring (monitor_round env b) = monitoring b"
proof (cases "check_all_levels (tick env) b")
  case (Pair res b')
  with check_all_levels_any[of "tick env" b] have "monitoring b' = monitoring b" by auto
  with Pair show ?thesis
    by (cases res) (simp_all add: monitor_round_def sleep_def Let_def)
qed

lemma monitoring_monitor_rounds: "monitoring (monitor_rounds envs b) = monitoring b"
  by (induction envs arbitrary: b) (simp_all add: monitoring_monitor_round)

lemma price_monitoring_loop_monitoring: "monitoring (price_monitoring_loop envs b)"
  by (simp add: price_monitoring_loop_def monitoring_monitor_rounds)

text \<open>\<open>/list\<close> while nothing is written.\<close>

lemma list_row_shows: "(\<lambda>(i, s, lv, p, st). (s, lv)) (list_row env (i, s, lv)) = (s, lv)"
  by (simp add: list_row_def split: option.splits)

lemma list_rows_quiet:
  assumes "length (levels_of (user_levels b) uid) = size0"
  shows "i + k = size0 \<Longrightarrow>
     \<exists>rows'. list_rows env (\<lambda>s. []) uid size0 i k True b rows = (Returned (rows @ rows'), b)
       \<and> map (\<lambda>(i, s, lv, p, st). (s, lv)) rows' = drop i (levels_of (user_levels b) uid)"
proof (induction k arbitrary: i rows)
  case 0
  with assms show ?case by simp
next
  case (Suc k)
  let ?d = "levels_of (user_levels b) uid"
  obtain s lv where item: "?d ! i = (s, lv)" by (cases "?d ! i")
  from Suc.prems assms have i: "i < length ?d" by simp
  from Suc.prems have "Suc i + k = size0" by simp
  from Suc.IH[OF this, of "rows @ [list_row env (Suc i, s, lv)]"] obtain rows' where
    run: "list_rows env (\<lambda>s. []) uid size0 (Suc i) k True b (rows @ [list_row env (Suc i, s, lv)]) =
            (Returned (rows @ list_row env (Suc i, s, lv) # rows'), b)"
    and sh: "map (\<lambda>(i, s, lv, p, st). (s, lv)) rows' = drop (Suc i) ?d"
    unfolding append_assoc append_Cons append_Nil by blast
  have step: "list_rows env (\<lambda>s. []) uid size0 i (Suc k) True b rows =
      (Returned (rows @ list_row env (Suc i, s, lv) # rows'), b)"
    using assms item run by simp
  have "map (\<lambda>(i, s, lv, p, st). (s, lv)) (list_row env (Suc i, s, lv) # rows') = drop i ?d"
    using sh item Cons_nth_drop_Suc[OF i] list_row_shows[of env "Suc i" s lv] by simp
  with step show ?case by blast
qed

lemma quiet_list_levels_command:
  "\<exists>rs. list_levels_command env (\<lambda>s. []) uid b = (Returned rs, b)
     \<and> listed rs = levels_of (user_levels b) uid"
proof (cases "map_of (user_levels b) uid")
  case None
  then show ?thesis by (simp add: list_levels_command_def listed_def levels_of_def)
next
  case (Some d)
  show ?thesis
  proof (cases "d = []")
    case True
    with Some show ?thesis by (simp add: list_levels_command_def listed_def levels_of_def)
  next
    case False
    from Some have d: "levels_of (user_levels b) uid = d" by (simp add: levels_of_def)
    then have "length (levels_of (user_levels b) uid) = length d" by simp
    from list_rows_quiet[OF this, of 0 "length d" env "[]"] obtain rows' where
      "list_rows env (\<lambda>s. []) uid (length d) 0 (length d) True b [] = (Returned rows', b)"
      "map (\<lambda>(i, s, lv, p, st). (s, lv)) rows' = d"
      using d by auto
    with Some False d show ?thesis
      by (simp add: list_levels_command_def listed_def)
  qed
qed

lemma quiet_list_in_insertion_order:
  assumes "user_levels b = replay h"
  shows "\<exists>rs. list_levels_command env (\<lambda>s. []) uid b = (Returned rs, b)
     \<and> listed rs = levels_of (user_levels b) uid
     \<and> (map_of (user_levels b) uid = None \<longrightarrow> listed rs = [])
     \<and> (\<forall>s. (s \<in> fst ` set (listed rs)) = (born h uid s \<noteq> None))
     \<and> distinct (map fst (listed rs))
     \<and> sorted_wrt (earlier h uid) (map fst (listed rs))"
proof -
  from quiet_list_levels_command[of env uid b] obtain rs where
    run: "list_levels_command env (\<lambda>s. []) uid b = (Returned rs, b)"
    and l: "listed rs = levels_of (user_levels b) uid"
    by blast
  have e: "map_of (user_levels b) uid = None \<longrightarrow> levels_of (replay h) uid = []"
    using assms by (simp add: levels_of_def)
  from in_order_replay[of h uid] l e assms
  have props: "listed rs = levels_of (user_levels b) uid
     \<and> (map_of (user_levels b) uid = None \<longrightarrow> listed rs = [])
     \<and> (\<forall>s. (s \<in> fst ` set (listed rs)) = (born h uid s \<noteq> None))
     \<and> distinct (map fst (listed rs))
     \<and> sorted_wrt (earlier h uid) (map fst (listed rs))"
    by (simp add: in_order_def Let_def)
  show ?thesis by (rule exI[of _ rs], rule conjI[OF run props])
qed

text \<open>The trigger rule for a whole tick during which no handler writes.\<close>

lemma quiet_tick_rule:
  assumes "wf_registry (user_levels b)"
    and "entry_of (user_levels b) u s = Some lv"
    and "prices u s = Some p"
  shows "case check_all_levels (quiet_tick prices ok) b of
           (res, b') \<Rightarrow>
             res = Ok ()
             \<and> (fle p (target_price lv) \<longrightarrow>
                  entry_of (user_levels b') u s = None
                  \<and> filter (concerns u s) (written b b') = [Notify u lv p (alert_outcome ok u lv p)])
             \<and> (fgt p (target_price lv) \<longrightarrow>
                  entry_of (user_levels b') u s = Some lv
                  \<and> filter (concerns u s) (written b b') = [])"
proof -
  from quiet_tick_effect[OF assms(1), of prices ok] obtain b' evs where
    run: "check_all_levels (quiet_tick prices ok) b = (Ok (), b')"
    and j: "journal b' = journal b @ evs"
    and lev: "\<forall>u. levels_of (user_levels b') u =
                filter (\<lambda>e. \<not> hit prices u e) (levels_of (user_levels b) u)"
    and con: "\<forall>u s. filter (concerns u s) evs =
           (case entry_of (user_levels b) u s of None \<Rightarrow> [] | Some lv \<Rightarrow> alert_of prices ok u (s, lv))"
    by blast
  have w: "written b b' = evs" using j by (rule written_append)
  have ent: "entry_of (user_levels b') u s = (if hit prices u (s, lv) then None else Some lv)"
    using lev entry_after_sweep[OF assms(1), of prices u s] assms(2) by (simp add: entry_of_def)
  have al: "filter (concerns u s) evs = alert_of prices ok u (s, lv)"
    using con[rule_format, of u s] assms(2) by simp
  have h: "hit prices u (s, lv) = fle p (target_price lv)"
    using assms(3) by (simp add: hit_def)
  have a: "alert_of prices ok u (s, lv) =
      (if fle p (target_price lv) then [Notify u lv p (alert_outcome ok u lv p)] else [])"
    using assms(3) by (simp add: alert_of_def)
  show ?thesis
    unfolding run using fgt_not_fle[of p "target_price lv"] by (simp add: w ent al h a)
qed

section \<open>The claims\<close>

text \<open>
  Claim C1, as the code has it. The monitor has no claim step: for an item of its copy whose
  fetched price meets the trigger condition it calls the notifier first, exactly once, with
  the level of the copy and without looking at the registry, and deletes the entry only
  afterwards. So whatever the handlers wrote while the price was fetched, the call is made; when
  the entry is still there after the call, it is deleted and the scan goes on.
\<close>

theorem alert_precedes_removal:
  assumes "price_of env u s = Some p" and "fle p (target_price lv)"
  shows "(let b1 = interfere (during_lookup env u s) b;
              b2 = send_target_hit_alert env u lv p b1
          in (\<exists>out. journal b2 = journal b @ [Notify u lv p out])
             \<and> (\<exists>evs. journal (snd (scan_levels env u ((s, lv) # rest) n b)) = journal b2 @ evs)
             \<and> (entry_of (user_levels b2) u s \<noteq> None \<longrightarrow>
                  scan_levels env u ((s, lv) # rest) n b =
                    scan_levels env u rest (Suc n)
                      (b2\<lparr>user_levels := pop_level u s (user_levels b2)\<rparr>)))"
proof -
  let ?b1 = "interfere (during_lookup env u s) b"
  let ?b2 = "send_target_hit_alert env u lv p ?b1"
  from send_alert_journal[of env u lv p ?b1]
  have 1: "\<exists>out. journal ?b2 = journal b @ [Notify u lv p out]" by simp
  have 3: "scan_levels env u ((s, lv) # rest) n b =
             scan_levels env u rest (Suc n) (?b2\<lparr>user_levels := pop_level u s (user_levels ?b2)\<rparr>)"
    if "entry_of (user_levels ?b2) u s \<noteq> None"
  proof -
    from that obtain old where "entry_of (user_levels ?b2) u s = Some old" by auto
    then have "del_level u s (user_levels ?b2) = Inr (pop_level u s (user_levels ?b2))"
      by (rule del_level_present)
    with assms show ?thesis by (simp add: Let_def)
  qed
  have 2: "\<exists>evs. journal (snd (scan_levels env u ((s, lv) # rest) n b)) = journal ?b2 @ evs"
  proof (cases "del_level u s (user_levels ?b2)")
    case (Inl x)
    with assms have "scan_levels env u ((s, lv) # rest) n b = (Raise x, ?b2)"
      by (simp add: Let_def)
    then show ?thesis by simp
  next
    case (Inr r)
    with assms have "scan_levels env u ((s, lv) # rest) n b =
        scan_levels env u rest (Suc n) (?b2\<lparr>user_levels := r\<rparr>)"
      by (simp add: Let_def)
    with scan_levels_any[of env u rest "Suc n" "?b2\<lparr>user_levels := r\<rparr>"] show ?thesis
      by auto
  qed
  from 1 2 3 show ?thesis unfolding Let_def by blast
qed

theorem alert_precedes_removal_witness:
  "price_of race_tick 7 ''SYM'' = Some (Finite 95)
   \<and> fle (Finite 95) (target_price level_sym)
   \<and> entry_of (user_levels (interfere (during_lookup race_tick 7 ''SYM'') demo_bot)) 7 ''SYM'' = None
   \<and> journal (send_target_hit_alert race_tick 7 level_sym (Finite 95)
        (interfere (during_lookup race_tick 7 ''SYM'') demo_bot))
      = journal demo_bot @ [Notify 7 level_sym (Finite 95) Sent]
   \<and> price_of (quiet_tick demo_prices delivered) 7 ''SYM'' = Some (Finite 95)
   \<and> entry_of (user_levels demo_bot) 7 ''SYM'' \<noteq> None
   \<and> scan_levels (quiet_tick demo_prices delivered) 7 [(''SYM'', level_sym)] 0 demo_bot =
       (Ok 1,
        \<lparr>user_levels = [(7, [(''ETH'', level_eth)])], monitoring = True,
         journal = [Started, Notify 7 level_sym (Finite 95) Sent]\<rparr>)"
  using alert_precedes_removal[of race_tick 7 "''SYM''" "Finite 95" level_sym demo_bot "[]" 0]
    alert_precedes_removal[of "quiet_tick demo_prices delivered" 7 "''SYM''" "Finite 95" level_sym
      demo_bot "[]" 0]
  by (simp add: race_tick_def quiet_tick_def demo_bot_def demo_prices_def delivered_def
      levels_of_def entry_of_def interfere_def pop_level_def send_target_hit_alert_def is_zero_def
      del_level_def level_sym_def level_eth_def)

text \<open>
  The claim as stated fails: a \<open>/remove\<close> that lands while the price is fetched takes the
  entry out, and the tick still calls the notifier for it; its own deletion then raises.
\<close>

theorem remove_race_counterexample:
  "entry_of (user_levels (interfere (during_lookup race_tick 7 ''SYM'') demo_bot)) 7 ''SYM'' = None
   \<and> check_all_levels race_tick demo_bot =
       (Raise KeyError,
        \<lparr>user_levels = [(7, [(''ETH'', level_eth)])], monitoring = True,
         journal = [Started, Notify 7 level_sym (Finite 95) Sent]\<rparr>)"
  by (simp add: check_all_levels_def race_tick_def demo_bot_def demo_prices_def delivered_def
      levels_of_def entry_of_def interfere_def pop_level_def send_target_hit_alert_def is_zero_def
      del_level_def level_sym_def level_eth_def)

text \<open>
  Claim C2, as the code has it. \<open>/add\<close> rejects a price argument that \<open>float()\<close> does not
  accept, and a symbol, empty or not, for which no price is available: it answers with the
  matching error and creates or replaces no entry of any user (the caller's empty sub-map is
  created when absent). The sign of the price is not examined.
\<close>

theorem add_rejects_unusable_arguments:
  assumes "float_of env pr = None \<or> get_binance_price env (upper a) = None"
  shows "case add_level_command env uid [a, pr] b of
           (replies, b') \<Rightarrow>
             replies = (if float_of env pr = None then [InvalidPrice] else [InvalidSymbol (upper a)])
             \<and> b' = b\<lparr>user_levels := ensure_user uid (user_levels b)\<rparr>
             \<and> (\<forall>v s. entry_of (user_levels b') v s = entry_of (user_levels b) v s)
             \<and> (\<forall>v. levels_of (user_levels b') v = levels_of (user_levels b) v)"
proof (cases "float_of env pr")
  case None
  then show ?thesis
    by (simp add: add_invalid_price entry_of_ensure_user levels_of_ensure_user)
next
  case (Some x)
  with assms have "get_binance_price env (upper a) = None" by simp
  with Some show ?thesis
    by (simp add: add_invalid_symbol entry_of_ensure_user levels_of_ensure_user)
qed

theorem add_rejects_unusable_arguments_witness:
  "float_of demo_env ''abc'' = None
   \<and> add_level_command demo_env 7 [''sym'', ''abc''] demo_bot = ([InvalidPrice], demo_bot)
   \<and> float_of demo_env ''100'' = Some (Finite 100)
   \<and> get_binance_price demo_env (upper '''') = None
   \<and> fst (add_level_command demo_env 7 ['''', ''100''] demo_bot) = [InvalidSymbol '''']
   \<and> levels_of (user_levels (snd (add_level_command demo_env 7 ['''', ''100''] demo_bot))) 7
      = levels_of (user_levels demo_bot) 7"
proof -
  have f1: "float_of demo_env ''abc'' = None"
    and f2: "float_of demo_env ''100'' = Some (Finite 100)"
    and g: "get_binance_price demo_env (upper '''') = None"
    by (simp_all add: demo_env_def float_literal_def digit_of_def demo_prices_def upper_def)
  have e: "ensure_user 7 (user_levels demo_bot) = user_levels demo_bot"
    by (simp add: ensure_user_def demo_bot_def)
  from add_rejects_unusable_arguments[of demo_env "''abc''" "''sym''" 7 demo_bot] f1 e
  have 1: "add_level_command demo_env 7 [''sym'', ''abc''] demo_bot = ([InvalidPrice], demo_bot)"
    by (simp add: split_beta prod_eq_iff)
  from add_rejects_unusable_arguments[of demo_env "''100''" "''''" 7 demo_bot] f2 g
  have 2: "fst (add_level_command demo_env 7 ['''', ''100''] demo_bot) = [InvalidSymbol '''']
     \<and> levels_of (user_levels (snd (add_level_command demo_env 7 ['''', ''100''] demo_bot))) 7
        = levels_of (user_levels demo_bot) 7"
    by (simp add: split_beta upper_def levels_of_ensure_user)
  from f1 f2 g 1 2 show ?thesis by blast
qed

text \<open>
  The claim as stated fails: a negative price is stored like any other.
\<close>

theorem nonpositive_price_counterexample:
  "float_literal ''-5'' = Some (Finite (- 5))
   \<and> \<not> (0 :: real) < - 5
   \<and> add_level_command demo_env 7 [''sym'', ''-5''] empty_bot =
       ([LevelAdded ''SYM'' (Finite (- 5)) (Finite 95)],
        \<lparr>user_levels =
           [(7, [(''SYM'', \<lparr>symbol = ''SYM'', target_price = Finite (- 5), created_at = 5\<rparr>)])],
         monitoring = False, journal = []\<rparr>)"
  by (simp add: add_level_command_def demo_env_def empty_bot_def demo_prices_def float_literal_def
      digit_of_def ensure_user_def upper_def upper_char_def entry_of_def levels_of_def
      set_level_def fge_def is_zero_def Let_def)

text \<open>
  Claim C3, as the code has it. For every user, symbol and price argument that \<open>float()\<close>
  accepts, \<open>/add\<close> stores the level under the uppercased symbol provided a price for that
  symbol is available: the user's sub-map is created when absent, no rejection is sent, and a
  target at or above the current price only puts a warning in front of the answer.
\<close>

theorem add_stores_when_priced:
  assumes "float_of env pr = Some x" and "get_binance_price env (upper a) = Some cur"
  shows "case add_level_command env uid [a, pr] b of
           (replies, b') \<Rightarrow>
             entry_of (user_levels b') uid (upper a)
               = Some \<lparr>symbol = upper a, target_price = x, created_at = now env\<rparr>
             \<and> map_of (user_levels b') uid \<noteq> None
             \<and> InvalidFormat \<notin> set replies \<and> InvalidPrice \<notin> set replies
             \<and> InvalidSymbol (upper a) \<notin> set replies
             \<and> (fge x cur \<longrightarrow> hd replies = Warning x cur \<and> length replies = 2)"
proof -
  from add_accepted[OF assms, of uid b] obtain replies b' final where
    run: "add_level_command env uid [a, pr] b = (replies, b')"
    and r: "user_levels b' =
         set_level uid \<lparr>symbol = upper a, target_price = x, created_at = now env\<rparr>
           (ensure_user uid (user_levels b))"
    and re: "replies = (if fge x cur then [Warning x cur] else []) @ [final]"
    and fin: "final = (case entry_of (user_levels b) uid (upper a) of
                        Some old \<Rightarrow> LevelUpdated (upper a) (target_price old) x cur
                      | None \<Rightarrow> if is_zero cur then ErrorOccurred else LevelAdded (upper a) x cur)"
    by blast
  have ok: "final \<noteq> InvalidFormat" "final \<noteq> InvalidPrice" "final \<noteq> InvalidSymbol (upper a)"
    using fin by (auto split: option.splits)
  show ?thesis
    unfolding run
    using ok map_of_set_level[of uid "\<lparr>symbol = upper a, target_price = x, created_at = now env\<rparr>"
        "ensure_user uid (user_levels b)"]
    by (simp add: r re entry_of_set_level)
qed

theorem add_stores_when_priced_witness:
  "float_of demo_env ''120'' = Some (Finite 120)
   \<and> get_binance_price demo_env (upper ''sym'') = Some (Finite 95)
   \<and> fge (Finite 120) (Finite 95)
   \<and> map_of (user_levels empty_bot) 7 = None
   \<and> add_level_command demo_env 7 [''sym'', ''120''] empty_bot =
       ([Warning (Finite 120) (Finite 95), LevelAdded ''SYM'' (Finite 120) (Finite 95)],
        \<lparr>user_levels =
           [(7, [(''SYM'', \<lparr>symbol = ''SYM'', target_price = Finite 120, created_at = 5\<rparr>)])],
         monitoring = False, journal = []\<rparr>)"
  using add_stores_when_priced[of demo_env "''120''" "Finite 120" "''sym''" "Finite 95" 7 empty_bot]
  by (simp add: add_level_command_def demo_env_def empty_bot_def demo_prices_def float_literal_def
      digit_of_def ensure_user_def upper_def upper_char_def entry_of_def levels_of_def
      set_level_def fge_def is_zero_def Let_def)

text \<open>
  The claim as stated fails: a symbol without an available price is rejected and nothing is
  stored.
\<close>

theorem unknown_symbol_counterexample:
  "float_literal ''100'' = Some (Finite 100)
   \<and> add_level_command demo_env 7 [''foo'', ''100''] demo_bot = ([InvalidSymbol ''FOO''], demo_bot)
   \<and> entry_of (user_levels demo_bot) 7 ''FOO'' = None"
  by (simp add: add_level_command_def demo_env_def demo_bot_def demo_prices_def float_literal_def
      digit_of_def ensure_user_def upper_def upper_char_def entry_of_def levels_of_def)

text \<open>
  Claim C4, as the code has it. The tick compares the fetched price with the target of the
  level in its copy of the user's levels, taken when it began with the user, not with the
  target stored when the price arrives. For every item of the copy, whatever the handlers write
  meanwhile: if the fetched price is at most the copy's target, the notifier is called exactly
  once, with the copy's level and the fetched price, and afterwards the registry holds no
  entry for the symbol; if it is strictly greater, the tick calls no notifier and writes
  nothing itself, and goes on with the next item. The scan of a copy is the scan of its first
  item followed, unless that raised, by the scan of the rest. In a tick during which no
  handler writes, the copy's level is the stored one, and the rule holds for every stored
  entry as the claim has it.
\<close>

theorem tick_trigger_rule:
  assumes "price_of env u s = Some p"
  shows "(case scan_levels env u [(s, lv)] n b of
            (res, b') \<Rightarrow>
              (fle p (target_price lv) \<longrightarrow>
                 written b b' = [Notify u lv p (alert_outcome (send_message_ok env) u lv p)]
                 \<and> entry_of (user_levels b') u s = None)
              \<and> (fgt p (target_price lv) \<longrightarrow>
                   res = Ok (Suc n) \<and> written b b' = []
                   \<and> b' = interfere (during_lookup env u s) b))
       \<and> scan_levels env u ((s, lv) # rest) n b =
           (case scan_levels env u [(s, lv)] n b of
              (Ok n', b') \<Rightarrow> scan_levels env u rest n' b'
            | (Raise e, b') \<Rightarrow> (Raise e, b'))
       \<and> (wf_registry (user_levels b) \<longrightarrow> entry_of (user_levels b) u s = Some lv \<longrightarrow>
            (case check_all_levels (quiet_tick (price_of env) (send_message_ok env)) b of
               (res, b') \<Rightarrow>
                 res = Ok ()
                 \<and> (fle p (target_price lv) \<longrightarrow>
                      entry_of (user_levels b') u s = None
                      \<and> filter (concerns u s) (written b b')
                          = [Notify u lv p (alert_outcome (send_message_ok env) u lv p)])
                 \<and> (fgt p (target_price lv) \<longrightarrow>
                      entry_of (user_levels b') u s = Some lv
                      \<and> filter (concerns u s) (written b b') = [])))"
proof -
  let ?step = "scan_levels env u [(s, lv)] n b"
  have 1: "case ?step of
            (res, b') \<Rightarrow>
              (fle p (target_price lv) \<longrightarrow>
                 written b b' = [Notify u lv p (alert_outcome (send_message_ok env) u lv p)]
                 \<and> entry_of (user_levels b') u s = None)
              \<and> (fgt p (target_price lv) \<longrightarrow>
                   res = Ok (Suc n) \<and> written b b' = []
                   \<and> b' = interfere (during_lookup env u s) b)"
  proof (cases "fle p (target_price lv)")
    case True
    from scan_step_triggered[OF assms True, of n b]
    have "written b (snd ?step) = [Notify u lv p (alert_outcome (send_message_ok env) u lv p)]"
      and "entry_of (user_levels (snd ?step)) u s = None"
      by (simp_all add: written_def)
    with True fgt_not_fle[of p "target_price lv"] show ?thesis
      by (cases ?step) auto
  next
    case False
    from scan_step_untriggered[OF assms False, of n b] False show ?thesis
      by (simp add: written_def)
  qed
  have 2: "scan_levels env u ((s, lv) # rest) n b =
           (case ?step of
              (Ok n', b') \<Rightarrow> scan_levels env u rest n' b'
            | (Raise e, b') \<Rightarrow> (Raise e, b'))"
    by (rule scan_levels_Cons)
  have 3: "case check_all_levels (quiet_tick (price_of env) (send_message_ok env)) b of
               (res, b') \<Rightarrow>
                 res = Ok ()
                 \<and> (fle p (target_price lv) \<longrightarrow>
                      entry_of (user_levels b') u s = None
                      \<and> filter (concerns u s) (written b b')
                          = [Notify u lv p (alert_outcome (send_message_ok env) u lv p)])
                 \<and> (fgt p (target_price lv) \<longrightarrow>
                      entry_of (user_levels b') u s = Some lv
                      \<and> filter (concerns u s) (written b b') = [])"
    if "wf_registry (user_levels b)" "entry_of (user_levels b) u s = Some lv"
    using quiet_tick_rule[where prices = "price_of env" and ok = "send_message_ok env",
        OF that assms] .
  from 1 2 3 show ?thesis by blast
qed

theorem tick_trigger_rule_witness:
  "price_of lowering_tick 7 ''SYM'' = Some (Finite 95)
   \<and> fle (Finite 95) (target_price level_sym)
   \<and> scan_levels lowering_tick 7 [(''SYM'', level_sym)] 0 demo_bot =
       (Ok 1,
        \<lparr>user_levels = [(7, [(''ETH'', level_eth)])], monitoring = True,
         journal = [Started, Notify 7 level_sym (Finite 95) Sent]\<rparr>)
   \<and> price_of (quiet_tick demo_prices delivered) 7 ''ETH'' = Some (Finite 60)
   \<and> fgt (Finite 60) (target_price level_eth)
   \<and> scan_levels (quiet_tick demo_prices delivered) 7 [(''ETH'', level_eth)] 1 demo_bot
       = (Ok 2, demo_bot)
   \<and> wf_registry (user_levels demo_bot)
   \<and> entry_of (user_levels demo_bot) 7 ''ETH'' = Some level_eth
   \<and> entry_of (user_levels demo_bot) 7 ''SYM'' = Some level_sym
   \<and> price_of (quiet_tick demo_prices delivered) 7 ''SYM'' = Some (Finite 95)
   \<and> check_all_levels (quiet_tick demo_prices delivered) demo_bot =
       (Ok (),
        \<lparr>user_levels = [(7, [(''ETH'', level_eth)])], monitoring = True,
         journal = [Started, Notify 7 level_sym (Finite 95) Sent, Checked 2]\<rparr>)"
  using tick_trigger_rule[where env = lowering_tick and u = 7 and s = "''SYM''" and p = "Finite 95"
      and lv = level_sym and n = 0 and b = demo_bot and rest = "[]"]
    tick_trigger_rule[where env = "quiet_tick demo_prices delivered" and u = 7 and s = "''ETH''"
      and p = "Finite 60" and lv = level_eth and n = 1 and b = demo_bot and rest = "[]"]
    tick_trigger_rule[where env = "quiet_tick demo_prices delivered" and u = 7 and s = "''SYM''"
      and p = "Finite 95" and lv = level_sym and n = 0 and b = demo_bot and rest = "[]"]
  by (simp add: check_all_levels_def lowering_tick_def lowered_sym_def quiet_tick_def demo_bot_def
      demo_prices_def delivered_def levels_of_def entry_of_def interfere_def pop_level_def
      set_level_def ensure_user_def send_target_hit_alert_def is_zero_def del_level_def
      level_sym_def level_eth_def fgt_def wf_registry_def wf_levels_def Let_def)

text \<open>
  The claim as stated fails: an \<open>/add SYM 80\<close> lands while the tick waits for the price of
  \<open>SYM\<close>. The price that arrives, 95, is strictly greater than the stored target, 80; the tick
  compares it with the target of its copy, 100, calls the notifier and deletes the entry.
\<close>

theorem stale_target_counterexample:
  "entry_of (user_levels (interfere (during_lookup lowering_tick 7 ''SYM'') demo_bot)) 7 ''SYM''
     = Some lowered_sym
   \<and> price_of lowering_tick 7 ''SYM'' = Some (Finite 95)
   \<and> fgt (Finite 95) (target_price lowered_sym)
   \<and> check_all_levels lowering_tick demo_bot =
       (Ok (),
        \<lparr>user_levels = [(7, [(''ETH'', level_eth)])], monitoring = True,
         journal = [Started, Notify 7 level_sym (Finite 95) Sent, Checked 2]\<rparr>)"
  by (simp add: check_all_levels_def lowering_tick_def lowered_sym_def demo_bot_def
      demo_prices_def delivered_def levels_of_def entry_of_def interfere_def pop_level_def
      set_level_def ensure_user_def send_target_hit_alert_def is_zero_def del_level_def
      level_sym_def level_eth_def fgt_def Let_def)

text \<open>
  Claim C5, as the code has it. A user has at most one level per symbol: \<open>/add\<close> for a symbol
  that is present never adds a second entry, the user's symbols and their order stay as they
  are, and the registry stays well-formed. When the price argument is numeric and a current
  price is available for the symbol, the level is replaced in place: the answer is the update
  message with the previous price, and the stored price is that of this call. When the price
  argument is not numeric, or no current price is available, the call is rejected and the old
  level stays.
\<close>

theorem upsert_replaces:
  assumes "wf_registry (user_levels b)"
    and "entry_of (user_levels b) uid (upper a) = Some old"
  shows "case add_level_command env uid [a, pr] b of
           (replies, b') \<Rightarrow>
             wf_registry (user_levels b')
             \<and> map fst (levels_of (user_levels b') uid) = map fst (levels_of (user_levels b) uid)
             \<and> length (filter (\<lambda>e. fst e = upper a) (levels_of (user_levels b') uid)) = 1
             \<and> (\<forall>x cur. float_of env pr = Some x \<longrightarrow> get_binance_price env (upper a) = Some cur \<longrightarrow>
                   last replies = LevelUpdated (upper a) (target_price old) x cur
                   \<and> entry_of (user_levels b') uid (upper a)
                       = Some \<lparr>symbol = upper a, target_price = x, created_at = now env\<rparr>)
             \<and> (float_of env pr = None \<or> get_binance_price env (upper a) = None \<longrightarrow>
                   replies = (if float_of env pr = None then [InvalidPrice]
                              else [InvalidSymbol (upper a)])
                   \<and> entry_of (user_levels b') uid (upper a) = Some old)"
proof -
  obtain replies b' where run: "add_level_command env uid [a, pr] b = (replies, b')"
    by (cases "add_level_command env uid [a, pr] b")
  have 5: "wf_registry (user_levels b')"
    using wf_add_level_command[OF assms(1), of env uid "[a, pr]"] by (simp add: run)
  from assms(2) have present: "upper a \<in> fst ` set (levels_of (user_levels b) uid)"
    by (auto simp: entry_of_def dest!: map_of_SomeD intro: rev_image_eqI)
  have rejected: "replies = (if float_of env pr = None then [InvalidPrice] else [InvalidSymbol (upper a)])
      \<and> b' = b\<lparr>user_levels := ensure_user uid (user_levels b)\<rparr>"
    if "float_of env pr = None \<or> get_binance_price env (upper a) = None"
  proof (cases "float_of env pr")
    case None
    then show ?thesis using run by (simp add: add_invalid_price)
  next
    case (Some x)
    with that have "get_binance_price env (upper a) = None" by simp
    with Some show ?thesis using run by (simp add: add_invalid_symbol)
  qed
  have accepted: "last replies = LevelUpdated (upper a) (target_price old) x cur
      \<and> user_levels b' =
          set_level uid \<lparr>symbol = upper a, target_price = x, created_at = now env\<rparr>
            (ensure_user uid (user_levels b))"
    if "float_of env pr = Some x" "get_binance_price env (upper a) = Some cur" for x cur
  proof -
    from add_accepted[OF that, of uid b] obtain final where
      r: "user_levels b' =
            set_level uid \<lparr>symbol = upper a, target_price = x, created_at = now env\<rparr>
              (ensure_user uid (user_levels b))"
      and re: "replies = (if fge x cur then [Warning x cur] else []) @ [final]"
      and fin: "final = (case entry_of (user_levels b) uid (upper a) of
                        Some old \<Rightarrow> LevelUpdated (upper a) (target_price old) x cur
                      | None \<Rightarrow> if is_zero cur then ErrorOccurred else LevelAdded (upper a) x cur)"
      unfolding run by auto
    from re fin assms(2) r show ?thesis by simp
  qed
  have 2: "map fst (levels_of (user_levels b') uid) = map fst (levels_of (user_levels b) uid)"
  proof (cases "float_of env pr = None \<or> get_binance_price env (upper a) = None")
    case True
    from rejected[OF True] show ?thesis by (simp add: levels_of_ensure_user)
  next
    case False
    then obtain x cur where "float_of env pr = Some x" "get_binance_price env (upper a) = Some cur"
      by auto
    from accepted[OF this] present show ?thesis
      by (simp add: levels_of_set_level levels_of_ensure_user update_keys)
  qed
  have 3: "length (filter (\<lambda>e. fst e = upper a) (levels_of (user_levels b') uid)) = 1"
  proof -
    from 5 have d: "distinct (map fst (levels_of (user_levels b') uid))"
      using wf_registry_levels_of[of "user_levels b'" uid] by (simp add: wf_levels_def)
    from present 2 have "upper a \<in> fst ` set (levels_of (user_levels b') uid)"
      by (metis list.set_map)
    then obtain v where "map_of (levels_of (user_levels b') uid) (upper a) = Some v"
      by (metis map_of_eq_None_iff not_None_eq)
    from count_key_distinct[OF d this] show ?thesis .
  qed
  have 4: "last replies = LevelUpdated (upper a) (target_price old) x cur
      \<and> entry_of (user_levels b') uid (upper a)
          = Some \<lparr>symbol = upper a, target_price = x, created_at = now env\<rparr>"
    if "float_of env pr = Some x" "get_binance_price env (upper a) = Some cur" for x cur
    using accepted[OF that] by (simp add: entry_of_set_level)
  have 6: "replies = (if float_of env pr = None then [InvalidPrice] else [InvalidSymbol (upper a)])
      \<and> entry_of (user_levels b') uid (upper a) = Some old"
    if "float_of env pr = None \<or> get_binance_price env (upper a) = None"
    using rejected[OF that] assms(2) by (simp add: entry_of_ensure_user)
  from 4 have a4: "\<forall>x cur. float_of env pr = Some x \<longrightarrow> get_binance_price env (upper a) = Some cur \<longrightarrow>
                   last replies = LevelUpdated (upper a) (target_price old) x cur
                   \<and> entry_of (user_levels b') uid (upper a)
                       = Some \<lparr>symbol = upper a, target_price = x, created_at = now env\<rparr>"
    by blast
  from 6 have a6: "float_of env pr = None \<or> get_binance_price env (upper a) = None \<longrightarrow>
                   replies = (if float_of env pr = None then [InvalidPrice]
                              else [InvalidSymbol (upper a)])
                   \<and> entry_of (user_levels b') uid (upper a) = Some old"
    by blast
  show ?thesis unfolding run prod.case by (intro conjI 5 2 3 a4 a6)
qed

theorem upsert_replaces_witness:
  "wf_registry (user_levels demo_bot)
   \<and> entry_of (user_levels demo_bot) 7 (upper ''sym'') = Some level_sym
   \<and> float_of demo_env ''90'' = Some (Finite 90)
   \<and> get_binance_price demo_env (upper ''sym'') = Some (Finite 95)
   \<and> add_level_command demo_env 7 [''sym'', ''90''] demo_bot =
       ([LevelUpdated ''SYM'' (Finite 100) (Finite 90) (Finite 95)],
        \<lparr>user_levels =
           [(7, [(''SYM'', \<lparr>symbol = ''SYM'', target_price = Finite 90, created_at = 5\<rparr>),
                 (''ETH'', level_eth)])],
         monitoring = True, journal = [Started]\<rparr>)
   \<and> get_binance_price offline_env (upper ''sym'') = None
   \<and> add_level_command offline_env 7 [''sym'', ''90''] demo_bot = ([InvalidSymbol ''SYM''], demo_bot)"
  using upsert_replaces[OF demo_bot_wf, of 7 "''sym''" level_sym demo_env "''90''"]
    upsert_replaces[OF demo_bot_wf, of 7 "''sym''" level_sym offline_env "''90''"]
  by (simp add: add_level_command_def demo_env_def offline_env_def demo_bot_def demo_prices_def
      float_literal_def digit_of_def ensure_user_def upper_def upper_char_def entry_of_def
      levels_of_def set_level_def fge_def is_zero_def Let_def level_sym_def level_eth_def
      wf_registry_def wf_levels_def)

text \<open>
  The claim as stated fails: \<open>SYM\<close> is present, the price argument is numeric, and no current
  price is available. The call is rejected as an invalid symbol: it reports no update and the
  stored price is still the old one, not that of this call.
\<close>

theorem offline_upsert_counterexample:
  "entry_of (user_levels demo_bot) 7 (upper ''sym'') = Some level_sym
   \<and> float_of offline_env ''90'' = Some (Finite 90)
   \<and> add_level_command offline_env 7 [''sym'', ''90''] demo_bot = ([InvalidSymbol ''SYM''], demo_bot)
   \<and> target_price level_sym = Finite 100"
  by (simp add: add_level_command_def offline_env_def demo_bot_def float_literal_def
      digit_of_def ensure_user_def upper_def upper_char_def entry_of_def levels_of_def
      level_sym_def)

text \<open>
  Claim C6. For every triggered item of the tick's copy, under any interference: the notifier
  is called once; when the notification fails, the failure is logged as the outcome of that
  call and nothing else is done about it; and afterwards the registry has no entry for the
  symbol, whether the notification went out or not. So a target level is alerted at most
  once. A target level is the value one \<open>/add\<close> stored; \<open>never_stores\<close> says of a round that
  no handler stores that same value again during it (a later \<open>/add\<close> makes another target
  level). Over any run of the loop from a well-formed registry, whatever else the handlers
  write: the notifier is called at most once for the level, and once it has been called the
  level is no longer stored.
\<close>

theorem alert_at_most_once:
  "(\<forall>env s p n b0.
      price_of env u s = Some p \<longrightarrow> fle p (target_price lv) \<longrightarrow>
      (case scan_levels env u [(s, lv)] n b0 of
         (res, b') \<Rightarrow>
           written b0 b' = [Notify u lv p (alert_outcome (send_message_ok env) u lv p)]
           \<and> (\<not> send_message_ok env u lv p \<longrightarrow>
                (\<exists>e. written b0 b' = [Notify u lv p (Failed e)]))
           \<and> entry_of (user_levels b') u s = None))
   \<and> (wf_registry (user_levels b) \<longrightarrow> (\<forall>env \<in> set envs. never_stores u lv env) \<longrightarrow>
        length (filter (calls_for u lv) (written b (price_monitoring_loop envs b))) \<le> 1
        \<and> (filter (calls_for u lv) (written b (price_monitoring_loop envs b)) \<noteq> [] \<longrightarrow>
             entry_of (user_levels (price_monitoring_loop envs b)) u (symbol lv) \<noteq> Some lv))"
proof -
  let ?b' = "price_monitoring_loop envs b"
  have 3: "case scan_levels env u [(s, lv)] n b0 of
             (res, b') \<Rightarrow>
               written b0 b' = [Notify u lv p (alert_outcome (send_message_ok env) u lv p)]
               \<and> (\<not> send_message_ok env u lv p \<longrightarrow>
                    (\<exists>e. written b0 b' = [Notify u lv p (Failed e)]))
               \<and> entry_of (user_levels b') u s = None"
    if "price_of env u s = Some p" "fle p (target_price lv)" for env s p n b0
  proof -
    from scan_step_triggered[OF that, of n b0]
    have w: "written b0 (snd (scan_levels env u [(s, lv)] n b0))
          = [Notify u lv p (alert_outcome (send_message_ok env) u lv p)]"
      and e: "entry_of (user_levels (snd (scan_levels env u [(s, lv)] n b0))) u s = None"
      by (simp_all add: written_def)
    have "\<not> send_message_ok env u lv p \<longrightarrow> (\<exists>e. alert_outcome (send_message_ok env) u lv p = Failed e)"
      by (simp add: alert_outcome_def)
    with w e show ?thesis
      by (cases "scan_levels env u [(s, lv)] n b0") auto
  qed
  have run: "length (filter (calls_for u lv) (written b ?b')) \<le> 1
        \<and> (filter (calls_for u lv) (written b ?b') \<noteq> [] \<longrightarrow>
             entry_of (user_levels ?b') u (symbol lv) \<noteq> Some lv)"
    if wf: "wf_registry (user_levels b)" and ns: "\<forall>env \<in> set envs. never_stores u lv env"
  proof -
    from price_monitoring_loop_journal[of envs b] obtain evs where
      j: "journal ?b' = journal b @ evs" by blast
    from alerts_written[OF j, of u lv]
    have a: "alerts_for u lv ?b' = alerts_for u lv b + length (filter (calls_for u lv) (written b ?b'))" .
    from price_monitoring_loop_once[OF ns wf]
    have once: "at_most_once u lv b ?b'" .
    from once a have 1: "length (filter (calls_for u lv) (written b ?b')) \<le> 1"
      by (simp add: at_most_once_def)
    have 2: "entry_of (user_levels ?b') u (symbol lv) \<noteq> Some lv"
      if "filter (calls_for u lv) (written b ?b') \<noteq> []"
    proof -
      from that have "length (filter (calls_for u lv) (written b ?b')) \<noteq> 0"
        by simp
      with 1 have "length (filter (calls_for u lv) (written b ?b')) = 1" by linarith
      with a have "alerts_for u lv ?b' = alerts_for u lv b + 1" by simp
      with once have "\<not> stored (user_levels ?b') u lv" by (simp add: at_most_once_def)
      then show ?thesis by (simp add: stored_def)
    qed
    from 1 2 show ?thesis by blast
  qed
  show ?thesis
  proof (intro conjI allI impI)
    fix env :: tick_env and s p n b0
    assume "price_of env u s = Some p" "fle p (target_price lv)"
    then show "case scan_levels env u [(s, lv)] n b0 of
             (res, b') \<Rightarrow>
               written b0 b' = [Notify u lv p (alert_outcome (send_message_ok env) u lv p)]
               \<and> (\<not> send_message_ok env u lv p \<longrightarrow>
                    (\<exists>e. written b0 b' = [Notify u lv p (Failed e)]))
               \<and> entry_of (user_levels b') u s = None"
      by (rule 3)
  next
    assume "wf_registry (user_levels b)" "\<forall>env \<in> set envs. never_stores u lv env"
    from run[OF this] show "length (filter (calls_for u lv) (written b ?b')) \<le> 1" by blast
  next
    assume "wf_registry (user_levels b)" "\<forall>env \<in> set envs. never_stores u lv env"
      and "filter (calls_for u lv) (written b ?b') \<noteq> []"
    with run show "entry_of (user_levels ?b') u (symbol lv) \<noteq> Some lv" by blast
  qed
qed

theorem alert_at_most_once_witness:
  "wf_registry (user_levels loaded_bot)
   \<and> never_stores 7 level_sym (quiet_round (demo_prices, undelivered))
   \<and> never_stores 7 level_sym race_round
   \<and> filter (calls_for 7 level_sym)
        (written loaded_bot
          (price_monitoring_loop [quiet_round (demo_prices, undelivered), race_round] loaded_bot))
      = [Notify 7 level_sym (Finite 95) (Failed TelegramError)]
   \<and> entry_of
        (user_levels
          (price_monitoring_loop [quiet_round (demo_prices, undelivered), race_round] loaded_bot))
        7 (symbol level_sym) = None
   \<and> price_of (quiet_tick demo_prices undelivered) 7 ''SYM'' = Some (Finite 95)
   \<and> fle (Finite 95) (target_price level_sym)
   \<and> \<not> send_message_ok (quiet_tick demo_prices undelivered) 7 level_sym (Finite 95)
   \<and> scan_levels (quiet_tick demo_prices undelivered) 7 [(''SYM'', level_sym)] 0 loaded_bot =
       (Ok 1,
        \<lparr>user_levels = [(7, [(''ETH'', level_eth)])], monitoring = False,
         journal = [Notify 7 level_sym (Finite 95) (Failed TelegramError)]\<rparr>)"
proof -
  have n1: "never_stores 7 level_sym (quiet_round (demo_prices, undelivered))"
    by (simp add: never_stores_def tick_never_stores_def quiet_round_def quiet_tick_def)
  have n2: "never_stores 7 level_sym race_round"
    by (simp add: never_stores_def tick_never_stores_def race_round_def race_tick_def)
  have run: "price_monitoring_loop [quiet_round (demo_prices, undelivered), race_round] loaded_bot =
      \<lparr>user_levels = [(7, [(''ETH'', level_eth)])], monitoring = True,
       journal = [Started, Notify 7 level_sym (Finite 95) (Failed TelegramError), Checked 2,
                  Sleep 300, Checked 1, Sleep 300]\<rparr>"
    by (simp add: price_monitoring_loop_def monitor_round_def sleep_def check_all_levels_def
        quiet_round_def quiet_tick_def race_round_def race_tick_def loaded_bot_def
        demo_prices_def undelivered_def delivered_def levels_of_def interfere_def pop_level_def
        send_target_hit_alert_def is_zero_def del_level_def level_sym_def level_eth_def Let_def)
  have step: "scan_levels (quiet_tick demo_prices undelivered) 7 [(''SYM'', level_sym)] 0 loaded_bot =
       (Ok 1,
        \<lparr>user_levels = [(7, [(''ETH'', level_eth)])], monitoring = False,
         journal = [Notify 7 level_sym (Finite 95) (Failed TelegramError)]\<rparr>)"
    by (simp add: quiet_tick_def loaded_bot_def demo_prices_def undelivered_def levels_of_def
        interfere_def pop_level_def send_target_hit_alert_def is_zero_def del_level_def
        level_sym_def level_eth_def Let_def)
  from n1 n2 have ns: "\<forall>env \<in> set [quiet_round (demo_prices, undelivered), race_round].
      never_stores 7 level_sym env" by simp
  from alert_at_most_once[where b = loaded_bot and u = 7 and lv = level_sym
      and envs = "[quiet_round (demo_prices, undelivered), race_round]"] loaded_bot_wf ns
  have le: "length (filter (calls_for 7 level_sym)
        (written loaded_bot
          (price_monitoring_loop [quiet_round (demo_prices, undelivered), race_round] loaded_bot)))
      \<le> 1"
    by blast
  have calls: "filter (calls_for 7 level_sym)
        (written loaded_bot
          (price_monitoring_loop [quiet_round (demo_prices, undelivered), race_round] loaded_bot))
      = [Notify 7 level_sym (Finite 95) (Failed TelegramError)]"
    using le unfolding run by (simp add: written_def loaded_bot_def)
  have gone: "entry_of
        (user_levels
          (price_monitoring_loop [quiet_round (demo_prices, undelivered), race_round] loaded_bot))
        7 (symbol level_sym) = None"
    unfolding run by (simp add: entry_of_def levels_of_def level_sym_def)
  have p: "price_of (quiet_tick demo_prices undelivered) 7 ''SYM'' = Some (Finite 95)"
    and t: "fle (Finite 95) (target_price level_sym)"
    and f: "\<not> send_message_ok (quiet_tick demo_prices undelivered) 7 level_sym (Finite 95)"
    by (simp_all add: quiet_tick_def demo_prices_def level_sym_def undelivered_def)
  from loaded_bot_wf n1 n2 calls gone p t f step show ?thesis by blast
qed

text \<open>
  Claim C7. Whatever rounds the loop has already run and whatever interferes: when the scan
  of a round raises, the round logs the error and sleeps 60, the short cooldown, where a scan
  that returns is followed by a sleep of 300; in both cases only the writes that land during
  the sleep change the registry. The round after it scans again, from the state the sleep
  left. No failure ends the loop: over any number of rounds every round reaches its sleep,
  and the monitor stays switched on.
\<close>

theorem loop_survives_errors:
  "(\<forall>e b'. check_all_levels (tick env) (price_monitoring_loop pre b) = (Raise e, b') \<longrightarrow>
       journal (price_monitoring_loop (pre @ [env]) b) = journal b' @ [LoopError e, Sleep 60]
       \<and> user_levels (price_monitoring_loop (pre @ [env]) b)
           = fold mutate (during_sleep env) (user_levels b'))
   \<and> (\<forall>b'. check_all_levels (tick env) (price_monitoring_loop pre b) = (Ok (), b') \<longrightarrow>
       journal (price_monitoring_loop (pre @ [env]) b) = journal b' @ [Sleep 300]
       \<and> user_levels (price_monitoring_loop (pre @ [env]) b)
           = fold mutate (during_sleep env) (user_levels b'))
   \<and> price_monitoring_loop (pre @ [env, env']) b =
       (case check_all_levels (tick env') (price_monitoring_loop (pre @ [env]) b) of
          (Ok x, b2) \<Rightarrow> sleep 300 (during_sleep env') b2
        | (Raise e2, b2) \<Rightarrow>
            sleep 60 (during_sleep env') (b2\<lparr>journal := journal b2 @ [LoopError e2]\<rparr>))
   \<and> length (filter is_sleep (written b (price_monitoring_loop envs b))) = length envs
   \<and> monitoring (price_monitoring_loop envs b)"
proof -
  have snoc: "price_monitoring_loop (pre @ [env]) b = monitor_round env (price_monitoring_loop pre b)"
    by (rule price_monitoring_loop_snoc)
  have 1: "journal (price_monitoring_loop (pre @ [env]) b) = journal b' @ [LoopError e, Sleep 60]
       \<and> user_levels (price_monitoring_loop (pre @ [env]) b)
           = fold mutate (during_sleep env) (user_levels b')"
    if "check_all_levels (tick env) (price_monitoring_loop pre b) = (Raise e, b')" for e b'
    unfolding snoc using that by (simp add: monitor_round_def sleep_def Let_def)
  have 2: "journal (price_monitoring_loop (pre @ [env]) b) = journal b' @ [Sleep 300]
       \<and> user_levels (price_monitoring_loop (pre @ [env]) b)
           = fold mutate (during_sleep env) (user_levels b')"
    if "check_all_levels (tick env) (price_monitoring_loop pre b) = (Ok (), b')" for b'
    unfolding snoc using that by (simp add: monitor_round_def sleep_def Let_def)
  have "price_monitoring_loop (pre @ [env, env']) b =
      monitor_round env' (price_monitoring_loop (pre @ [env]) b)"
    using price_monitoring_loop_snoc[of "pre @ [env]" env' b] by simp
  then have 3: "price_monitoring_loop (pre @ [env, env']) b =
       (case check_all_levels (tick env') (price_monitoring_loop (pre @ [env]) b) of
          (Ok x, b2) \<Rightarrow> sleep 300 (during_sleep env') b2
        | (Raise e2, b2) \<Rightarrow>
            sleep 60 (during_sleep env') (b2\<lparr>journal := journal b2 @ [LoopError e2]\<rparr>))"
    by (simp add: monitor_round_def)
  from 1 2 3 price_monitoring_loop_sleeps[of b envs] price_monitoring_loop_monitoring[of envs b]
  show ?thesis by blast
qed

theorem loop_survives_errors_witness:
  "check_all_levels (tick race_round) (price_monitoring_loop [] loaded_bot) =
     (Raise KeyError,
      \<lparr>user_levels = [(7, [(''ETH'', level_eth)])], monitoring = True,
       journal = [Started, Notify 7 level_sym (Finite 95) Sent]\<rparr>)
   \<and> price_monitoring_loop [race_round] loaded_bot =
       \<lparr>user_levels = [(7, [(''ETH'', level_eth)])], monitoring = True,
        journal = [Started, Notify 7 level_sym (Finite 95) Sent, LoopError KeyError, Sleep 60]\<rparr>
   \<and> check_all_levels (tick race_round) (price_monitoring_loop [race_round] loaded_bot) =
       (Ok (),
        \<lparr>user_levels = [(7, [(''ETH'', level_eth)])], monitoring = True,
         journal = [Started, Notify 7 level_sym (Finite 95) Sent, LoopError KeyError, Sleep 60,
                    Checked 1]\<rparr>)
   \<and> price_monitoring_loop [race_round, race_round] loaded_bot =
       \<lparr>user_levels = [(7, [(''ETH'', level_eth)])], monitoring = True,
        journal = [Started, Notify 7 level_sym (Finite 95) Sent, LoopError KeyError, Sleep 60,
                   Checked 1, Sleep 300]\<rparr>"
proof -
  have start: "price_monitoring_loop [] loaded_bot = demo_bot"
    by (simp add: price_monitoring_loop_def loaded_bot_def demo_bot_def)
  have scan1: "check_all_levels (tick race_round) (price_monitoring_loop [] loaded_bot) =
     (Raise KeyError,
      \<lparr>user_levels = [(7, [(''ETH'', level_eth)])], monitoring = True,
       journal = [Started, Notify 7 level_sym (Finite 95) Sent]\<rparr>)"
    unfolding start by (simp add: race_round_def race_tick_run)
  from loop_survives_errors[where env = race_round and pre = "[]" and b = loaded_bot
      and env' = race_round and envs = "[]"] scan1
  have j1: "journal (price_monitoring_loop [race_round] loaded_bot) =
        [Started, Notify 7 level_sym (Finite 95) Sent, LoopError KeyError, Sleep 60]"
    and r1: "user_levels (price_monitoring_loop [race_round] loaded_bot) = [(7, [(''ETH'', level_eth)])]"
    and next_round: "price_monitoring_loop [race_round, race_round] loaded_bot =
       (case check_all_levels (tick race_round) (price_monitoring_loop [race_round] loaded_bot) of
          (Ok x, b2) \<Rightarrow> sleep 300 (during_sleep race_round) b2
        | (Raise e2, b2) \<Rightarrow>
            sleep 60 (during_sleep race_round) (b2\<lparr>journal := journal b2 @ [LoopError e2]\<rparr>))"
    by (simp_all add: race_round_def)
  from loop_survives_errors[where envs = "[race_round]" and b = loaded_bot and pre = "[]"
      and env = race_round and env' = race_round]
  have "monitoring (price_monitoring_loop [race_round] loaded_bot)" by blast
  with j1 r1 have round1: "price_monitoring_loop [race_round] loaded_bot =
       \<lparr>user_levels = [(7, [(''ETH'', level_eth)])], monitoring = True,
        journal = [Started, Notify 7 level_sym (Finite 95) Sent, LoopError KeyError, Sleep 60]\<rparr>"
    by (cases "price_monitoring_loop [race_round] loaded_bot") simp
  have scan2: "check_all_levels (tick race_round) (price_monitoring_loop [race_round] loaded_bot) =
       (Ok (),
        \<lparr>user_levels = [(7, [(''ETH'', level_eth)])], monitoring = True,
         journal = [Started, Notify 7 level_sym (Finite 95) Sent, LoopError KeyError, Sleep 60,
                    Checked 1]\<rparr>)"
    unfolding round1
    by (simp add: check_all_levels_def race_round_def race_tick_def demo_prices_def delivered_def
        levels_of_def interfere_def level_eth_def Let_def)
  have round2: "price_monitoring_loop [race_round, race_round] loaded_bot =
       \<lparr>user_levels = [(7, [(''ETH'', level_eth)])], monitoring = True,
        journal = [Started, Notify 7 level_sym (Finite 95) Sent, LoopError KeyError, Sleep 60,
                   Checked 1, Sleep 300]\<rparr>"
    unfolding next_round scan2 by (simp add: sleep_def race_round_def interfere_def)
  from scan1 round1 scan2 round2 show ?thesis by blast
qed

text \<open>
  Claim C8 describes what the per-entry handling of the tick is written for, and the code
  departs from it. An entry whose price is unavailable is skipped and stays as it is. But the
  next tick need not reach it: the deletion that follows an alert is unguarded, so when a
  \<open>/remove\<close> has taken the alerted entry away meanwhile it raises \<open>KeyError\<close>, which ends the
  scan. Here \<open>ETH\<close> is skipped in the first round; in the second \<open>SYM\<close> is alerted while
  \<open>/remove SYM\<close> lands, the deletion raises, and \<open>ETH\<close>, now at 40 with its target at 50, is
  neither looked up nor alerted in that tick.
\<close>

theorem skipped_entry_not_retried:
  "price_of (tick outage_round) 7 ''ETH'' = None
   \<and> price_monitoring_loop [outage_round] loaded_bot =
       \<lparr>user_levels = [(7, [(''SYM'', level_sym), (''ETH'', level_eth)])], monitoring = True,
        journal = [Started, Checked 1, Sleep 300]\<rparr>
   \<and> price_of (tick dip_race_round) 7 ''ETH'' = Some (Finite 40)
   \<and> fle (Finite 40) (target_price level_eth)
   \<and> check_all_levels (tick dip_race_round) (price_monitoring_loop [outage_round] loaded_bot) =
       (Raise KeyError,
        \<lparr>user_levels = [(7, [(''ETH'', level_eth)])], monitoring = True,
         journal = [Started, Checked 1, Sleep 300, Notify 7 level_sym (Finite 95) Sent]\<rparr>)
   \<and> price_monitoring_loop [outage_round, dip_race_round] loaded_bot =
       \<lparr>user_levels = [(7, [(''ETH'', level_eth)])], monitoring = True,
        journal = [Started, Checked 1, Sleep 300, Notify 7 level_sym (Finite 95) Sent,
                   LoopError KeyError, Sleep 60]\<rparr>"
  by (simp add: price_monitoring_loop_def monitor_round_def sleep_def check_all_levels_def
      outage_round_def outage_prices_def dip_race_round_def dip_prices_def quiet_round_def
      quiet_tick_def loaded_bot_def delivered_def levels_of_def interfere_def pop_level_def
      send_target_hit_alert_def is_zero_def del_level_def level_sym_def level_eth_def Let_def)

text \<open>
  Claim C9 describes what \<open>/list\<close> is written for, and the code departs from it. While
  nothing is written during the command it shows the user's pairs in insertion order, and
  \<open>No active levels\<close> for a user the registry does not know. But it walks the live dict and
  waits for a price at every row: when an entry of the user is deleted during such a wait, by
  the monitor or by \<open>/remove\<close>, the next step of the walk raises \<open>RuntimeError\<close> and nothing
  is shown. Here user 7 has \<open>SYM\<close> and \<open>ETH\<close>, and \<open>SYM\<close> is deleted while its price is
  fetched.
\<close>

theorem list_during_removal_raises:
  "levels_of (user_levels demo_bot) 7 = [(''SYM'', level_sym), (''ETH'', level_eth)]
   \<and> list_levels_command demo_env (\<lambda>s. []) 7 demo_bot =
       (Returned
          [LevelsList 2
             [(1, ''SYM'', level_sym, Some (Finite 95), ShouldHaveTriggered),
              (2, ''ETH'', level_eth, Some (Finite 60), Watching)]],
        demo_bot)
   \<and> list_levels_command demo_env removal_landing 7 demo_bot =
       (Raised RuntimeError,
        \<lparr>user_levels = [(7, [(''ETH'', level_eth)])], monitoring = True, journal = [Started]\<rparr>)
   \<and> list_levels_command demo_env (\<lambda>s. []) 8 demo_bot = (Returned [NoActiveLevels], demo_bot)"
  by (simp add: list_levels_command_def list_row_def removal_landing_def demo_env_def
      demo_bot_def demo_prices_def levels_of_def interfere_def pop_level_def truthy_def
      is_zero_def level_sym_def level_eth_def numeral_2_eq_2 Let_def)

text \<open>
  Claim C10. \<open>/remove\<close> and \<open>/add\<close> uppercase their symbol argument. So for a stored target,
  whose symbol is in upper case, \<open>/remove\<close> with any case variant of the symbol removes it,
  and \<open>/add\<close> with any case variant replaces that entry and adds no other.
\<close>

theorem symbols_match_ignoring_case:
  assumes "entry_of (user_levels b) uid k = Some lv"
    and "upper k = k"
    and "case_variant s k"
  shows "(case remove_level_command uid [s] b of
            (replies, b') \<Rightarrow>
              replies = [LevelRemoved k (target_price lv)]
              \<and> entry_of (user_levels b') uid k = None)
       \<and> (\<forall>env pr x cur.
             float_of env pr = Some x \<longrightarrow> get_binance_price env k = Some cur \<longrightarrow>
             (case add_level_command env uid [s, pr] b of
                (replies, b') \<Rightarrow>
                  last replies = LevelUpdated k (target_price lv) x cur
                  \<and> map fst (levels_of (user_levels b') uid) = map fst (levels_of (user_levels b) uid)
                  \<and> entry_of (user_levels b') uid k
                      = Some \<lparr>symbol = k, target_price = x, created_at = now env\<rparr>))"
proof -
  from case_variant_upper[OF assms(3)] assms(2) have up: "upper s = k" by simp
  from assms(1) obtain d where d: "map_of (user_levels b) uid = Some d" "map_of d k = Some lv"
    by (auto simp: entry_of_def levels_of_def split: option.splits)
  then have ne: "d \<noteq> []" by auto
  have rem: "remove_level_command uid [s] b =
      ([LevelRemoved k (target_price lv)], b\<lparr>user_levels := pop_level uid k (user_levels b)\<rparr>)"
    using d ne by (simp add: remove_level_command_def up)
  have 1: "case remove_level_command uid [s] b of
            (replies, b') \<Rightarrow>
              replies = [LevelRemoved k (target_price lv)]
              \<and> entry_of (user_levels b') uid k = None"
    unfolding rem by (simp add: entry_of_pop_level)
  have 2: "case add_level_command env uid [s, pr] b of
                (replies, b') \<Rightarrow>
                  last replies = LevelUpdated k (target_price lv) x cur
                  \<and> map fst (levels_of (user_levels b') uid) = map fst (levels_of (user_levels b) uid)
                  \<and> entry_of (user_levels b') uid k
                      = Some \<lparr>symbol = k, target_price = x, created_at = now env\<rparr>"
    if "float_of env pr = Some x" "get_binance_price env k = Some cur" for env pr x cur
  proof -
    let ?lv = "\<lparr>symbol = k, target_price = x, created_at = now env\<rparr>"
    from add_accepted[of env pr x s cur uid b] that up obtain replies b' final where
      run: "add_level_command env uid [s, pr] b = (replies, b')"
      and r: "user_levels b' = set_level uid ?lv (ensure_user uid (user_levels b))"
      and re: "replies = (if fge x cur then [Warning x cur] else []) @ [final]"
      and fin: "final = (case entry_of (user_levels b) uid k of
                        Some old \<Rightarrow> LevelUpdated k (target_price old) x cur
                      | None \<Rightarrow> if is_zero cur then ErrorOccurred else LevelAdded k x cur)"
      by auto
    have lev: "levels_of (user_levels b') uid = AList.update k ?lv (levels_of (user_levels b) uid)"
      by (simp add: r levels_of_set_level levels_of_ensure_user)
    from assms(1) have "k \<in> fst ` set (levels_of (user_levels b) uid)"
      by (auto simp: entry_of_def dest!: map_of_SomeD intro: rev_image_eqI)
    then have "map fst (levels_of (user_levels b') uid) = map fst (levels_of (user_levels b) uid)"
      by (simp add: lev update_keys)
    moreover have "last replies = LevelUpdated k (target_price lv) x cur"
      using re fin assms(1) by simp
    moreover have "entry_of (user_levels b') uid k = Some ?lv"
      by (simp add: r entry_of_set_level)
    ultimately show ?thesis unfolding run by simp
  qed
  from 1 2 show ?thesis by blast
qed

theorem symbols_match_ignoring_case_witness:
  "entry_of (user_levels demo_bot) 7 ''SYM'' = Some level_sym
   \<and> upper ''SYM'' = ''SYM''
   \<and> case_variant ''sYm'' ''SYM''
   \<and> remove_level_command 7 [''sYm''] demo_bot =
       ([LevelRemoved ''SYM'' (Finite 100)],
        \<lparr>user_levels = [(7, [(''ETH'', level_eth)])], monitoring = True, journal = [Started]\<rparr>)
   \<and> float_of demo_env ''90'' = Some (Finite 90)
   \<and> get_binance_price demo_env ''SYM'' = Some (Finite 95)
   \<and> add_level_command demo_env 7 [''sYm'', ''90''] demo_bot =
       ([LevelUpdated ''SYM'' (Finite 100) (Finite 90) (Finite 95)],
        \<lparr>user_levels =
           [(7, [(''SYM'', \<lparr>symbol = ''SYM'', target_price = Finite 90, created_at = 5\<rparr>),
                 (''ETH'', level_eth)])],
         monitoring = True, journal = [Started]\<rparr>)"
proof -
  have u: "upper ''SYM'' = ''SYM''" and c: "case_variant ''sYm'' ''SYM''"
    by (simp_all add: upper_def upper_char_def case_variant_def)
  have f: "float_of demo_env ''90'' = Some (Finite 90)"
    and g: "get_binance_price demo_env ''SYM'' = Some (Finite 95)"
    by (simp_all add: demo_env_def float_literal_def digit_of_def demo_prices_def)
  have rem: "remove_level_command 7 [''sYm''] demo_bot =
       ([LevelRemoved ''SYM'' (Finite 100)],
        \<lparr>user_levels = [(7, [(''ETH'', level_eth)])], monitoring = True, journal = [Started]\<rparr>)"
    using symbols_match_ignoring_case[OF demo_bot_sym u c]
    by (simp add: remove_level_command_def demo_bot_def upper_def upper_char_def pop_level_def
        level_sym_def)
  have add: "add_level_command demo_env 7 [''sYm'', ''90''] demo_bot =
       ([LevelUpdated ''SYM'' (Finite 100) (Finite 90) (Finite 95)],
        \<lparr>user_levels =
           [(7, [(''SYM'', \<lparr>symbol = ''SYM'', target_price = Finite 90, created_at = 5\<rparr>),
                 (''ETH'', level_eth)])],
         monitoring = True, journal = [Started]\<rparr>)"
    using symbols_match_ignoring_case[OF demo_bot_sym u c] f g
    by (simp add: add_level_command_def demo_env_def demo_bot_def demo_prices_def float_literal_def
      digit_of_def ensure_user_def upper_def upper_char_def entry_of_def levels_of_def
      set_level_def fge_def is_zero_def Let_def level_sym_def)
  from demo_bot_sym u c rem f g add show ?thesis by simp
qed

end
